theory Spec2Isabelle
  imports Main "HOL-Library.Sublist" "HOL-Library.Multiset"
begin

section \<open>Strings of the source language\<close>

text \<open>
  The source is TypeScript. Its strings are sequences of UTF-16 code units; they
  are modelled as \<open>string\<close> (lists of \<open>char\<close>), one \<open>char\<close> per code unit,
  so the model covers the strings whose code units are below 256 (ASCII and the
  Latin-1 supplement). On these strings the operations below are the ones of
  JavaScript: \<open>\d\<close> and \<open>\w\<close> are the ASCII classes, \<open>trim\<close> removes the
  six ASCII white-space characters and the no-break space, \<open>toLowerCase\<close> maps the
  ASCII and Latin-1 capital letters, and \<open>toUpperCase\<close> maps the ASCII and Latin-1
  small letters and turns the sharp s into \<open>SS\<close>. Two code units have an upper-case
  form above 255, the micro sign \<open>0xB5\<close> and \<open>0xFF\<close>: the model leaves them
  unchanged, and no statement below depends on them.
\<close>

definition upperChars :: string where
  "upperChars = ''ABCDEFGHIJKLMNOPQRSTUVWXYZ''"

definition lowerChars :: string where
  "lowerChars = ''abcdefghijklmnopqrstuvwxyz''"

definition digitChars :: string where
  "digitChars = ''0123456789''"

text \<open>The capital letters of the Latin-1 supplement, \<open>0xC0\<close> to \<open>0xDE\<close> without
  the multiplication sign \<open>0xD7\<close>, and their small letters, \<open>0x20\<close> higher.\<close>

definition latin1Upper :: string where
  "latin1Upper = [
      CHR 0xC0, CHR 0xC1, CHR 0xC2, CHR 0xC3, CHR 0xC4, CHR 0xC5, CHR 0xC6, CHR 0xC7,
      CHR 0xC8, CHR 0xC9, CHR 0xCA, CHR 0xCB, CHR 0xCC, CHR 0xCD, CHR 0xCE, CHR 0xCF,
      CHR 0xD0, CHR 0xD1, CHR 0xD2, CHR 0xD3, CHR 0xD4, CHR 0xD5, CHR 0xD6, CHR 0xD8,
      CHR 0xD9, CHR 0xDA, CHR 0xDB, CHR 0xDC, CHR 0xDD, CHR 0xDE]"

definition latin1Lower :: string where
  "latin1Lower = [
      CHR 0xE0, CHR 0xE1, CHR 0xE2, CHR 0xE3, CHR 0xE4, CHR 0xE5, CHR 0xE6, CHR 0xE7,
      CHR 0xE8, CHR 0xE9, CHR 0xEA, CHR 0xEB, CHR 0xEC, CHR 0xED, CHR 0xEE, CHR 0xEF,
      CHR 0xF0, CHR 0xF1, CHR 0xF2, CHR 0xF3, CHR 0xF4, CHR 0xF5, CHR 0xF6, CHR 0xF8,
      CHR 0xF9, CHR 0xFA, CHR 0xFB, CHR 0xFC, CHR 0xFD, CHR 0xFE]"

text \<open>\<open>\d\<close> of a JavaScript regular expression.\<close>

definition isDigit :: "char \<Rightarrow> bool" where
  "isDigit c = (c \<in> set digitChars)"

text \<open>\<open>\w\<close> of a JavaScript regular expression: letters, digits and the underscore.\<close>

definition isWordChar :: "char \<Rightarrow> bool" where
  "isWordChar c = (c \<in> set (upperChars @ lowerChars @ digitChars @ ''_''))"

text \<open>The white space removed by \<open>String.prototype.trim\<close>: tab, line feed,
  vertical tab, form feed, carriage return, space and the no-break space.\<close>

definition isSpace :: "char \<Rightarrow> bool" where
  "isSpace c =
     (c \<in> set [CHR 0x09, CHR 0x0A, CHR 0x0B, CHR 0x0C, CHR 0x0D, CHR '' '', CHR 0xA0])"

definition toLowerChar :: "char \<Rightarrow> char" where
  "toLowerChar c =
     (case map_of (zip (upperChars @ latin1Upper) (lowerChars @ latin1Lower)) c of
        Some l \<Rightarrow> l | None \<Rightarrow> c)"

definition toUpperChar :: "char \<Rightarrow> char" where
  "toUpperChar c =
     (case map_of (zip (lowerChars @ latin1Lower) (upperChars @ latin1Upper)) c of
        Some u \<Rightarrow> u | None \<Rightarrow> c)"

text \<open>The code units that one code unit becomes in upper case: two for the sharp
  s \<open>0xDF\<close>, one for any other.\<close>

definition toUpperUnits :: "char \<Rightarrow> string" where
  "toUpperUnits c = (if c = CHR 0xDF then ''SS'' else [toUpperChar c])"

definition toLowerCase :: "string \<Rightarrow> string" where
  "toLowerCase s = map toLowerChar s"

definition toUpperCase :: "string \<Rightarrow> string" where
  "toUpperCase s = concat (map toUpperUnits s)"

definition trim :: "string \<Rightarrow> string" where
  "trim s = rev (dropWhile isSpace (rev (dropWhile isSpace s)))"

text \<open>\<open>s.startsWith(pat)\<close>: the test made at each position by \<open>indexOf\<close>,
  \<open>split\<close> and the literal regular expressions.\<close>

fun startsWith :: "string \<Rightarrow> string \<Rightarrow> bool" where
  "startsWith s [] = True"
| "startsWith [] (p # ps) = False"
| "startsWith (c # cs) (p # ps) = (c = p \<and> startsWith cs ps)"

text \<open>\<open>s.indexOf(pat, start)\<close>, with \<open>None\<close> for the result \<open>-1\<close>.
  \<open>indexOfAux pat s i\<close> scans the suffix \<open>s\<close> that begins at offset \<open>i\<close>.\<close>

fun indexOfAux :: "string \<Rightarrow> string \<Rightarrow> nat \<Rightarrow> nat option" where
  "indexOfAux pat [] i = (if pat = [] then Some i else None)"
| "indexOfAux pat (c # cs) i =
     (if startsWith (c # cs) pat then Some i else indexOfAux pat cs (Suc i))"

definition indexOf :: "string \<Rightarrow> string \<Rightarrow> nat \<Rightarrow> nat option" where
  "indexOf s pat start = indexOfAux pat (drop start s) (min start (length s))"

text \<open>\<open>s.includes(pat)\<close>.\<close>

definition includes_str :: "string \<Rightarrow> string \<Rightarrow> bool" where
  "includes_str s pat = (indexOf s pat 0 \<noteq> None)"

text \<open>\<open>s.substring(a, b)\<close>: the arguments are clamped to the length and swapped
  when \<open>a > b\<close>.\<close>

definition substring :: "string \<Rightarrow> nat \<Rightarrow> nat \<Rightarrow> string" where
  "substring s a b =
     (let a' = min a (length s); b' = min b (length s)
      in take (max a' b' - min a' b') (drop (min a' b') s))"

lemma startsWith_prefix: "startsWith s pat \<longleftrightarrow> prefix pat s"
  by (induction s pat rule: startsWith.induct) auto

lemma startsWith_take: "startsWith s pat \<longleftrightarrow> take (length pat) s = pat"
  by (induction s pat rule: startsWith.induct) auto

lemma indexOfAux_ge: "indexOfAux pat s i = Some j \<Longrightarrow> i \<le> j"
  by (induction s arbitrary: i) (fastforce split: if_splits)+

lemma indexOfAux_Some:
  "indexOfAux pat s i = Some j \<Longrightarrow> startsWith (drop (j - i) s) pat \<and> j - i + length pat \<le> length s"
proof (induction s arbitrary: i)
  case Nil
  then show ?case by (simp split: if_splits)
next
  case (Cons c cs)
  show ?case
  proof (cases "startsWith (c # cs) pat")
    case True
    with Cons.prems have "j = i" by simp
    moreover from True have "length pat \<le> length (c # cs)"
      using prefix_length_le [of pat "c # cs"] by (simp add: startsWith_prefix)
    ultimately show ?thesis using True by simp
  next
    case False
    with Cons.prems have rec: "indexOfAux pat cs (Suc i) = Some j" by simp
    from indexOfAux_ge [OF rec] have "Suc i \<le> j" .
    then have "j - i = Suc (j - Suc i)" by simp
    with Cons.IH [OF rec] show ?thesis by simp
  qed
qed

lemma indexOfAux_first:
  "indexOfAux pat s i = Some j \<Longrightarrow> k < j - i \<Longrightarrow> \<not> startsWith (drop k s) pat"
proof (induction s arbitrary: i k)
  case Nil
  then show ?case by (simp split: if_splits)
next
  case (Cons c cs)
  show ?case
  proof (cases "startsWith (c # cs) pat")
    case True
    with Cons.prems show ?thesis by simp
  next
    case False
    with Cons.prems have rec: "indexOfAux pat cs (Suc i) = Some j" by simp
    show ?thesis
    proof (cases k)
      case 0
      with False show ?thesis by simp
    next
      case (Suc k')
      with Cons.prems have "k' < j - Suc i" by simp
      from Cons.IH [OF rec this] Suc show ?thesis by simp
    qed
  qed
qed

lemma indexOfAux_None:
  "indexOfAux pat s i = None \<Longrightarrow> \<not> startsWith (drop k s) pat"
proof (induction s arbitrary: i k)
  case Nil
  then show ?case by (cases pat) (simp_all split: if_splits)
next
  case (Cons c cs)
  then show ?case by (cases k) (simp_all split: if_splits)
qed

lemma indexOfAux_sublist: "indexOfAux pat s i \<noteq> None \<longleftrightarrow> sublist pat s"
  by (induction s arbitrary: i) (auto simp: sublist_Cons_right startsWith_prefix)

lemma includes_sublist: "includes_str s pat \<longleftrightarrow> sublist pat s"
  using indexOfAux_sublist [of pat s 0] by (simp add: includes_str_def indexOf_def)


lemma indexOf_bound: "indexOf s pat k = Some i \<Longrightarrow> i + length pat \<le> length s"
proof -
  assume a: "indexOf s pat k = Some i"
  then have b: "indexOfAux pat (drop k s) (min k (length s)) = Some i"
    by (simp add: indexOf_def)
  from indexOfAux_Some [OF b] indexOfAux_ge [OF b] show ?thesis by auto
qed

section \<open>The record extractor\<close>

text \<open>\<open>s.split(sep)\<close> with a string separator: the pieces between the
  occurrences of \<open>sep\<close>, found from left to right without overlap. The empty
  separator splits into code units.\<close>

function splitStr :: "string \<Rightarrow> string \<Rightarrow> string list" where
  "splitStr s sep =
     (if sep = [] then map (\<lambda>c. [c]) s
      else case indexOf s sep 0 of
             None \<Rightarrow> [s]
           | Some i \<Rightarrow> take i s # splitStr (drop (i + length sep) s) sep)"
  by pat_completeness auto
termination
proof (relation "measure (\<lambda>(s, sep). length s)")
  show "wf (measure (\<lambda>(s, sep). length s))" by simp
next
  fix s sep :: string and i :: nat
  assume "sep \<noteq> []" and "indexOf s sep 0 = Some i"
  then have "0 < length sep" and "i + length sep \<le> length s"
    by (simp_all add: indexOf_bound)
  then have "length s - (i + length sep) < length s"
    by arith
  then show "((drop (i + length sep) s, sep), (s, sep)) \<in> measure (\<lambda>(s, sep). length s)"
    by simp
qed

declare splitStr.simps [simp del]

text \<open>\<open>chunk.match(/^(\d{15})/)\<close>: the first capture group, when the chunk
  starts with fifteen digits.\<close>

definition imeiMatch :: "string \<Rightarrow> string option" where
  "imeiMatch chunk =
     (if 15 \<le> length chunk \<and> list_all isDigit (take 15 chunk)
      then Some (take 15 chunk) else None)"

text \<open>\<open>chunk.match(/<pre>([\s\S]*?)<\/pre>/)\<close>: the text between the first
  \<open><pre>\<close> and the first \<open></pre>\<close> after it. A later \<open><pre>\<close> cannot
  match where the first one does not, since it would need a \<open></pre>\<close> further right.\<close>

definition preMatch :: "string \<Rightarrow> string option" where
  "preMatch chunk =
     (case indexOf chunk ''<pre>'' 0 of
        None \<Rightarrow> None
      | Some i \<Rightarrow>
          (case indexOf chunk ''</pre>'' (i + 5) of
             None \<Rightarrow> None
           | Some j \<Rightarrow> Some (substring chunk (i + 5) j)))"

text \<open>\<open>s.replace(/<[^>]+>/g, '')\<close>: at a \<open><\<close>, the match runs to the next
  \<open>>\<close> when at least one code unit lies between them; scanning resumes after it.\<close>

function stripTags :: "string \<Rightarrow> string" where
  "stripTags [] = []"
| "stripTags (c # cs) =
     (if c = CHR ''<''
         \<and> takeWhile (\<lambda>x. x \<noteq> CHR ''>'') cs \<noteq> []
         \<and> dropWhile (\<lambda>x. x \<noteq> CHR ''>'') cs \<noteq> []
      then stripTags (tl (dropWhile (\<lambda>x. x \<noteq> CHR ''>'') cs))
      else c # stripTags cs)"
  by pat_completeness auto
termination
proof (relation "measure length")
  show "wf (measure length)" by simp
next
  fix c :: char and cs :: string
  have "length (tl (dropWhile (\<lambda>x. x \<noteq> CHR ''>'') cs)) \<le> length cs"
    using length_dropWhile_le [of "\<lambda>x. x \<noteq> CHR ''>''" cs] by simp
  then show "(tl (dropWhile (\<lambda>x. x \<noteq> CHR ''>'') cs), c # cs) \<in> measure length"
    by simp
next
  fix c :: char and cs :: string
  show "(cs, c # cs) \<in> measure length" by simp
qed

declare stripTags.simps [simp del]

text \<open>\<open>s.replace(/pat/g, rep)\<close> for a literal, non-empty pattern (the source
  uses \<open>&nbsp;\<close> and \<open>-USA\<close>): every match found from left to right is
  replaced, and scanning resumes after the match.\<close>

function replaceAll :: "string \<Rightarrow> string \<Rightarrow> string \<Rightarrow> string" where
  "replaceAll pat rep [] = []"
| "replaceAll pat rep (c # cs) =
     (if pat \<noteq> [] \<and> startsWith (c # cs) pat
      then rep @ replaceAll pat rep (drop (length pat) (c # cs))
      else c # replaceAll pat rep cs)"
  by pat_completeness auto
termination
  by (relation "measure (\<lambda>(pat, rep, s). length s)") auto

declare replaceAll.simps [simp del]

text \<open>The closure \<open>getValue\<close> of \<open>parseSickwHtml\<close>, with the block
  \<open>preContent\<close> it captures as its first argument.\<close>

definition getValue :: "string \<Rightarrow> string \<Rightarrow> string" where
  "getValue preContent key =
     (let searchKey = key @ '':'' in
      case indexOf preContent searchKey 0 of
        None \<Rightarrow> []
      | Some idx \<Rightarrow>
          (let start = idx + length searchKey;
               end1 = indexOf preContent ''<br'' start;
               end2 = (case end1 of Some e \<Rightarrow> Some e
                       | None \<Rightarrow> indexOf preContent [CHR 0x0A] start);
               end3 = (case end2 of Some e \<Rightarrow> e | None \<Rightarrow> length preContent);
               rawValue = substring preContent start end3
           in trim (replaceAll ''&nbsp;'' '' '' (stripTags rawValue))))"

datatype Group = Unlocked | ATT | TMobileSprint | Verizon | Other

text \<open>The interface \<open>Device\<close>. A field declared optional (\<open>?\<close>) is an
  \<open>option\<close>; \<open>id\<close> is named \<open>id'\<close> and \<open>group\<close> is named
  \<open>group'\<close>.\<close>

record Device =
  id' :: string
  imei :: string
  imei2 :: "string option"
  modelDesc :: string
  serial :: "string option"
  warrantyStatus :: "string option"
  icloudLock :: "string option"
  carrier :: "string option"
  simLock :: "string option"
  estPurchaseDate :: "string option"
  activationStatus :: "string option"
  rawText :: string
  group' :: Group
  isActive :: bool

text \<open>Lines 87 to 99 of \<open>parseSickwHtml\<close>: the carrier group, from the
  extracted carrier and sim-lock texts.\<close>

definition classifyGroup :: "string \<Rightarrow> string \<Rightarrow> Group" where
  "classifyGroup carrierRaw simLockV =
     (let c = toLowerCase carrierRaw; s = toLowerCase simLockV in
      if includes_str s ''unlocked'' \<or> includes_str c ''unlock'' \<or> includes_str c ''open policy''
      then Unlocked
      else if includes_str c ''t-mobile'' \<or> includes_str c ''sprint'' then TMobileSprint
      else if includes_str c ''at&t'' then ATT
      else if includes_str c ''verizon'' then Verizon
      else Other)"

text \<open>A word boundary \<open>\b\<close> between two neighbouring positions, each a code
  unit or the edge of the string.\<close>

definition isWordOpt :: "char option \<Rightarrow> bool" where
  "isWordOpt x = (case x of None \<Rightarrow> False | Some c \<Rightarrow> isWordChar c)"

definition wordBoundary :: "char option \<Rightarrow> char option \<Rightarrow> bool" where
  "wordBoundary prev nxt = (isWordOpt prev \<noteq> isWordOpt nxt)"

definition headOpt :: "string \<Rightarrow> char option" where
  "headOpt s = (case s of [] \<Rightarrow> None | c # _ \<Rightarrow> Some c)"

text \<open>One attempt of \<open>/\b(19|20)\d{2}\b/\<close> at the position whose left
  neighbour is \<open>prev\<close> and whose remaining text is \<open>s\<close>.\<close>

definition yearHere :: "char option \<Rightarrow> string \<Rightarrow> bool" where
  "yearHere prev s =
     (wordBoundary prev (headOpt s)
      \<and> (startsWith s ''19'' \<or> startsWith s ''20'')
      \<and> (case drop 2 s of
            d1 # d2 # rest \<Rightarrow> isDigit d1 \<and> isDigit d2 \<and> wordBoundary (Some d2) (headOpt rest)
          | _ \<Rightarrow> False))"

text \<open>\<open>/\b(19|20)\d{2}\b/.test(s)\<close>: an attempt at every position, from the left.\<close>

fun yearScan :: "char option \<Rightarrow> string \<Rightarrow> bool" where
  "yearScan prev [] = False"
| "yearScan prev (c # cs) = (yearHere prev (c # cs) \<or> yearScan (Some c) cs)"

definition yearTest :: "string \<Rightarrow> bool" where
  "yearTest s = yearScan None s"

text \<open>Lines 101 to 117 of \<open>parseSickwHtml\<close>: the activation flag. A string is
  truthy when it is not empty.\<close>

definition deriveIsActive :: "string \<Rightarrow> string \<Rightarrow> bool" where
  "deriveIsActive activationStatusV estPurchaseDateV =
     (if activationStatusV \<noteq> [] then
        (if includes_str (toLowerCase activationStatusV) ''not activated'' then False else True)
      else if estPurchaseDateV \<noteq> [] then
        (if includes_str (toLowerCase estPurchaseDateV) ''not activated'' then False
         else if yearTest estPurchaseDateV then True
         else False)
      else False)"

text \<open>The decimal digits of a number, as a template literal prints it.\<close>

fun showNat :: "nat \<Rightarrow> string" where
  "showNat n = (if n < 10 then [digitChars ! n] else showNat (n div 10) @ [digitChars ! (n mod 10)])"

declare showNat.simps [simp del]

text \<open>Lines 77 to 134 of \<open>parseSickwHtml\<close>: the nine field extractions,
  the two derived fields and the object pushed for the chunk at index \<open>i\<close>,
  whose IMEI is \<open>imeiV\<close> and whose block is \<open>preContent\<close>.\<close>

definition buildDevice :: "nat \<Rightarrow> string \<Rightarrow> string \<Rightarrow> Device" where
  "buildDevice i imeiV preContent =
     (let modelDescV = getValue preContent ''Model Description'';
          imei2V = getValue preContent ''IMEI2'';
          serialV = getValue preContent ''Serial Number'';
          warrantyStatusV = getValue preContent ''Warranty Status'';
          icloudLockV = getValue preContent ''iCloud Lock'';
          carrierRaw = getValue preContent ''Locked Carrier'';
          simLockV = getValue preContent ''Sim-Lock Status'';
          estPurchaseDateV = getValue preContent ''Estimated Purchase Date'';
          activationStatusV = getValue preContent ''Activation Status''
      in \<lparr> id' = imeiV @ ''-'' @ showNat i,
           imei = imeiV,
           imei2 = Some imei2V,
           modelDesc = modelDescV,
           serial = Some serialV,
           warrantyStatus = Some warrantyStatusV,
           icloudLock = Some (toUpperCase icloudLockV),
           carrier = Some carrierRaw,
           simLock = Some simLockV,
           estPurchaseDate = Some estPurchaseDateV,
           activationStatus = Some activationStatusV,
           rawText = preContent,
           group' = classifyGroup carrierRaw simLockV,
           isActive = deriveIsActive activationStatusV estPurchaseDateV \<rparr>)"

text \<open>The body of the loop of \<open>parseSickwHtml\<close> for the chunk at index
  \<open>i\<close>: \<open>None\<close> where the source says \<open>continue\<close>, the pushed device
  otherwise.\<close>

definition parseChunk :: "nat \<Rightarrow> string \<Rightarrow> Device option" where
  "parseChunk i chunk =
     (case imeiMatch chunk of
        None \<Rightarrow> None
      | Some imeiV \<Rightarrow>
          (case preMatch chunk of
             None \<Rightarrow> None
           | Some preContent \<Rightarrow> Some (buildDevice i imeiV preContent)))"

text \<open>The loop \<open>for (let i = 1; i < chunks.length; i++)\<close>, over the chunks
  from index \<open>i\<close> on.\<close>

fun parseChunks :: "nat \<Rightarrow> string list \<Rightarrow> Device list" where
  "parseChunks i [] = []"
| "parseChunks i (chunk # chunks) =
     (case parseChunk i chunk of
        None \<Rightarrow> parseChunks (Suc i) chunks
      | Some d \<Rightarrow> d # parseChunks (Suc i) chunks)"

definition parseSickwHtml :: "string \<Rightarrow> Device list" where
  "parseSickwHtml html = parseChunks 1 (drop 1 (splitStr html ''<b>IMEI: </b>''))"


section \<open>The query matcher\<close>

text \<open>The separators of \<open>/[\n, \t]+/\<close>.\<close>

definition isQuerySep :: "char \<Rightarrow> bool" where
  "isQuerySep c = (c \<in> set [CHR 0x0A, CHR '','', CHR '' '', CHR 0x09])"

lemma length_dropWhile_sep:
  "dropWhile (\<lambda>c. \<not> P c) s \<noteq> [] \<Longrightarrow> length (dropWhile P (dropWhile (\<lambda>c. \<not> P c) s)) < length s"
proof -
  assume a: "dropWhile (\<lambda>c. \<not> P c) s \<noteq> []"
  then have "P (hd (dropWhile (\<lambda>c. \<not> P c) s))"
    using hd_dropWhile [of "\<lambda>c. \<not> P c" s] by simp
  with a have "length (dropWhile P (dropWhile (\<lambda>c. \<not> P c) s)) < length (dropWhile (\<lambda>c. \<not> P c) s)"
    by (cases "dropWhile (\<lambda>c. \<not> P c) s") (simp_all add: le_imp_less_Suc length_dropWhile_le)
  also have "\<dots> \<le> length s" by (rule length_dropWhile_le)
  finally show ?thesis .
qed

text \<open>\<open>s.split(/[\n, \t]+/)\<close>: the pieces between the maximal runs of
  separators; a separator at either end gives an empty piece there.\<close>

function splitSeps :: "string \<Rightarrow> string list" where
  "splitSeps s =
     (if dropWhile (\<lambda>c. \<not> isQuerySep c) s = [] then [takeWhile (\<lambda>c. \<not> isQuerySep c) s]
      else takeWhile (\<lambda>c. \<not> isQuerySep c) s
             # splitSeps (dropWhile isQuerySep (dropWhile (\<lambda>c. \<not> isQuerySep c) s)))"
  by pat_completeness auto
termination
  by (relation "measure length") (simp_all add: length_dropWhile_sep)

declare splitSeps.simps [simp del]

text \<open>\<open>new Set(xs)\<close> keeps its elements in the order of their first insertion;
  \<open>Array.from\<close> reads them in that order.\<close>

definition setAdd :: "string list \<Rightarrow> string \<Rightarrow> string list" where
  "setAdd acc x = (if x \<in> set acc then acc else acc @ [x])"

definition arrayFromSet :: "string list \<Rightarrow> string list" where
  "arrayFromSet xs = foldl setAdd [] xs"

text \<open>A \<open>Map<string, Device>\<close> as the list of its entries in insertion order.
  \<open>Map.prototype.set\<close> on a key already present replaces the value and keeps the
  position of the entry; on a new key it appends the entry.\<close>

fun mapSet :: "(string \<times> Device) list \<Rightarrow> string \<Rightarrow> Device \<Rightarrow> (string \<times> Device) list" where
  "mapSet [] k v = [(k, v)]"
| "mapSet ((k', v') # m) k v = (if k' = k then (k, v) # m else (k', v') # mapSet m k v)"

text \<open>The predicate of the filter in \<open>handleBulkSearch\<close>:
  \<open>d.imei.includes(q) || (d.serial && d.serial.includes(q))\<close>. An undefined or empty
  \<open>serial\<close> is falsy.\<close>

definition matchesQuery :: "string \<Rightarrow> Device \<Rightarrow> bool" where
  "matchesQuery q d =
     (includes_str (imei d) q
      \<or> (case serial d of None \<Rightarrow> False | Some sn \<Rightarrow> sn \<noteq> [] \<and> includes_str sn q))"

text \<open>The body of \<open>uniqueQueries.forEach\<close>, on the pair of the map and the
  list \<open>missing\<close>.\<close>

definition searchStep ::
  "Device list \<Rightarrow> (string \<times> Device) list \<times> string list \<Rightarrow> string
     \<Rightarrow> (string \<times> Device) list \<times> string list" where
  "searchStep devices acc q =
     (let matches = filter (matchesQuery q) devices in
      if matches \<noteq> [] then (foldl (\<lambda>m d. mapSet m (id' d) d) (fst acc) matches, snd acc)
      else (fst acc, snd acc @ [q]))"

text \<open>The three pieces of component state that \<open>handleBulkSearch\<close> sets.\<close>

record SearchState =
  searchResults :: "Device list option"
  notFoundQueries :: "string list"
  icloudAlertDevices :: "Device list"

definition uniqueQueriesOf :: "string \<Rightarrow> string list" where
  "uniqueQueriesOf bulkQuery =
     arrayFromSet (filter (\<lambda>s. s \<noteq> []) (map trim (splitSeps bulkQuery)))"

definition handleBulkSearch :: "Device list \<Rightarrow> string \<Rightarrow> SearchState \<Rightarrow> SearchState" where
  "handleBulkSearch devices bulkQuery st =
     (if trim bulkQuery = [] then
        \<lparr> searchResults = None, notFoundQueries = [], icloudAlertDevices = [] \<rparr>
      else
        (let uniqueQueries = uniqueQueriesOf bulkQuery;
             acc = foldl (searchStep devices) ([], []) uniqueQueries;
             results = map snd (fst acc);
             locked = filter (\<lambda>d. icloudLock d = Some ''ON'') results
         in \<lparr> searchResults = Some results,
              notFoundQueries = snd acc,
              icloudAlertDevices = (if locked \<noteq> [] then locked else icloudAlertDevices st) \<rparr>))"

section \<open>The export formatter\<close>

definition cleanModel :: "string \<Rightarrow> string" where
  "cleanModel name = trim (replaceAll ''-USA'' [] name)"

definition separator :: string where
  "separator = ''===============================''"

text \<open>\<open>xs.join(sep)\<close>.\<close>

fun joinStr :: "string \<Rightarrow> string list \<Rightarrow> string" where
  "joinStr sep [] = []"
| "joinStr sep [x] = x"
| "joinStr sep (x # y # ys) = x @ sep @ joinStr sep (y # ys)"

definition formatList :: "Device list \<Rightarrow> string" where
  "formatList devs =
     joinStr [CHR 0x0A]
       (map (\<lambda>d. cleanModel (modelDesc d) @ [CHR 0x0A] @ imei d @ [CHR 0x0A] @ separator) devs)"

definition generateExportText :: "Device list \<Rightarrow> string" where
  "generateExportText devices =
     (let output0 = [];
          icloud = filter (\<lambda>d. icloudLock d = Some ''ON'') devices;
          output1 = (if 0 < length icloud
                     then output0 @ ''*ICLOUD*\<newline>\<newline>'' @ formatList icloud @ ''\<newline>\<newline>''
                     else output0);
          tmobileNonActive =
            filter (\<lambda>d. icloudLock d \<noteq> Some ''ON'' \<and> group' d = TMobileSprint \<and> \<not> isActive d) devices;
          output2 = (if 0 < length tmobileNonActive
                     then output1
                       @ ''locked and non active tmoblie with network phone are like this with the device detetils,\<newline>\<newline>*LOCKED N NON ACTIVE T-MOBILE*\<newline>\<newline>''
                       @ formatList tmobileNonActive @ ''\<newline>\<newline>''
                     else output1);
          tmobileActive =
            filter (\<lambda>d. icloudLock d \<noteq> Some ''ON'' \<and> group' d = TMobileSprint \<and> isActive d) devices;
          output3 = (if 0 < length tmobileActive
                     then output2 @ ''*LOCKED N ACTIVE T-MOBILE*\<newline>\<newline>''
                       @ formatList tmobileActive @ ''\<newline>\<newline>''
                     else output2);
          lockedOtherNonActive =
            filter (\<lambda>d. icloudLock d \<noteq> Some ''ON'' \<and> group' d \<noteq> TMobileSprint
                         \<and> group' d \<noteq> Unlocked \<and> \<not> isActive d) devices;
          output4 = (if 0 < length lockedOtherNonActive
                     then output3
                       @ ''locked and non active other network phone are like this with the device detetils,\<newline>\<newline>*LOCKED N NON ACTIVE*\<newline>\<newline>''
                       @ formatList lockedOtherNonActive @ ''\<newline>\<newline>''
                     else output3);
          lockedOtherActive =
            filter (\<lambda>d. icloudLock d \<noteq> Some ''ON'' \<and> group' d \<noteq> TMobileSprint
                         \<and> group' d \<noteq> Unlocked \<and> isActive d) devices;
          output5 = (if 0 < length lockedOtherActive
                     then output4 @ ''*LOCKED N ACTIVE*\<newline>\<newline>''
                       @ formatList lockedOtherActive @ ''\<newline>\<newline>''
                     else output4);
          unlockedNonActive =
            filter (\<lambda>d. icloudLock d \<noteq> Some ''ON'' \<and> group' d = Unlocked \<and> \<not> isActive d) devices;
          output6 = (if 0 < length unlockedNonActive
                     then output5
                       @ ''unlocked and non active phone are like this with the device detetils,\<newline>\<newline>UNLOCKED N NON ACTIVE\<newline>\<newline>''
                       @ formatList unlockedNonActive @ ''\<newline>\<newline>''
                     else output5);
          unlockedActive =
            filter (\<lambda>d. icloudLock d \<noteq> Some ''ON'' \<and> group' d = Unlocked \<and> isActive d) devices;
          output7 = (if 0 < length unlockedActive
                     then output6
                       @ ''unlocked and active phone like this device detetils,\<newline>\<newline>UNLOCKED N ACTIVE\<newline>\<newline>''
                       @ formatList unlockedActive @ ''\<newline>\<newline>''
                     else output6)
      in trim output7)"

text \<open>The seven buckets of \<open>generateExportText\<close> as a list: the predicates
  of its filters and the texts that precede its device lists, in the order of the source.\<close>

definition isIcloud :: "Device \<Rightarrow> bool" where
  "isIcloud d = (icloudLock d = Some ''ON'')"

definition isTmobileNonActive :: "Device \<Rightarrow> bool" where
  "isTmobileNonActive d = (icloudLock d \<noteq> Some ''ON'' \<and> group' d = TMobileSprint \<and> \<not> isActive d)"

definition isTmobileActive :: "Device \<Rightarrow> bool" where
  "isTmobileActive d = (icloudLock d \<noteq> Some ''ON'' \<and> group' d = TMobileSprint \<and> isActive d)"

definition isLockedOtherNonActive :: "Device \<Rightarrow> bool" where
  "isLockedOtherNonActive d =
     (icloudLock d \<noteq> Some ''ON'' \<and> group' d \<noteq> TMobileSprint \<and> group' d \<noteq> Unlocked \<and> \<not> isActive d)"

definition isLockedOtherActive :: "Device \<Rightarrow> bool" where
  "isLockedOtherActive d =
     (icloudLock d \<noteq> Some ''ON'' \<and> group' d \<noteq> TMobileSprint \<and> group' d \<noteq> Unlocked \<and> isActive d)"

definition isUnlockedNonActive :: "Device \<Rightarrow> bool" where
  "isUnlockedNonActive d = (icloudLock d \<noteq> Some ''ON'' \<and> group' d = Unlocked \<and> \<not> isActive d)"

definition isUnlockedActive :: "Device \<Rightarrow> bool" where
  "isUnlockedActive d = (icloudLock d \<noteq> Some ''ON'' \<and> group' d = Unlocked \<and> isActive d)"

definition bucketFilters :: "(Device \<Rightarrow> bool) list" where
  "bucketFilters =
     [isIcloud, isTmobileNonActive, isTmobileActive, isLockedOtherNonActive,
      isLockedOtherActive, isUnlockedNonActive, isUnlockedActive]"

definition bucketHeaders :: "string list" where
  "bucketHeaders =
     [''*ICLOUD*'',
      ''locked and non active tmoblie with network phone are like this with the device detetils,\<newline>\<newline>*LOCKED N NON ACTIVE T-MOBILE*'',
      ''*LOCKED N ACTIVE T-MOBILE*'',
      ''locked and non active other network phone are like this with the device detetils,\<newline>\<newline>*LOCKED N NON ACTIVE*'',
      ''*LOCKED N ACTIVE*'',
      ''unlocked and non active phone are like this with the device detetils,\<newline>\<newline>UNLOCKED N NON ACTIVE'',
      ''unlocked and active phone like this device detetils,\<newline>\<newline>UNLOCKED N ACTIVE'']"

text \<open>The buckets of a device list: what each filter of the source keeps.\<close>

definition buckets :: "Device list \<Rightarrow> Device list list" where
  "buckets devices = map (\<lambda>p. filter p devices) bucketFilters"


section \<open>Properties of \<open>indexOf\<close>\<close>

lemma indexOf_SomeD:
  assumes "indexOf s pat k = Some i"
  shows "min k (length s) \<le> i" and "startsWith (drop i s) pat" and "i + length pat \<le> length s"
    and "\<And>j. k \<le> j \<Longrightarrow> j < i \<Longrightarrow> \<not> startsWith (drop j s) pat"
proof -
  let ?m = "min k (length s)"
  from assms have a: "indexOfAux pat (drop k s) ?m = Some i"
    by (simp add: indexOf_def)
  from indexOfAux_ge [OF a] show m: "?m \<le> i" .
  have dk: "drop k s = drop ?m s" by (simp add: min_def)
  from indexOfAux_Some [OF a] have "startsWith (drop (i - ?m) (drop ?m s)) pat"
    and "i - ?m + length pat \<le> length (drop ?m s)"
    using dk by simp_all
  with m show "startsWith (drop i s) pat" and "i + length pat \<le> length s"
    by simp_all
  fix j assume j: "k \<le> j" "j < i"
  from \<open>i + length pat \<le> length s\<close> j have kl: "k \<le> length s" by simp
  then have mk: "?m = k" by simp
  from j mk have "j - k < i - ?m" by simp
  from indexOfAux_first [OF a this] j show "\<not> startsWith (drop j s) pat" by simp
qed

lemma indexOf_NoneD:
  assumes "indexOf s pat k = None" and "k \<le> j"
  shows "\<not> startsWith (drop j s) pat"
proof -
  from assms have "indexOfAux pat (drop k s) (min k (length s)) = None"
    by (simp add: indexOf_def)
  from indexOfAux_None [OF this, of "j - k"] assms(2) show ?thesis by simp
qed

lemma indexOf_found:
  assumes "startsWith (drop j s) pat" and "k \<le> j"
  shows "\<exists>i. indexOf s pat k = Some i \<and> i \<le> j"
proof (cases "indexOf s pat k")
  case None
  from indexOf_NoneD [OF None assms(2)] assms(1) show ?thesis by simp
next
  case (Some i)
  have "i \<le> j"
  proof (rule ccontr)
    assume "\<not> i \<le> j"
    then have "j < i" by simp
    from indexOf_SomeD(4) [OF Some assms(2) this] assms(1) show False by simp
  qed
  with Some show ?thesis by simp
qed

lemma startsWith_append: "startsWith (pat @ r) pat"
  by (simp add: startsWith_prefix)

lemma startsWith_split: "startsWith (drop i s) pat \<Longrightarrow> s = take i s @ pat @ drop (i + length pat) s"
proof -
  assume "startsWith (drop i s) pat"
  then have "take (length pat) (drop i s) = pat" by (simp add: startsWith_take)
  then have "drop i s = pat @ drop (length pat) (drop i s)"
    by (metis append_take_drop_id)
  then have "drop i s = pat @ drop (i + length pat) s" by (simp add: add.commute)
  then show ?thesis by (metis append_take_drop_id)
qed

section \<open>The segments that the extractor accepts\<close>

text \<open>A chunk contains a preformatted block when an opening \<open><pre>\<close> is
  followed, somewhere later, by a closing \<open></pre>\<close>.\<close>

definition hasPreBlock :: "string \<Rightarrow> bool" where
  "hasPreBlock chunk = (\<exists>a b c. chunk = a @ ''<pre>'' @ b @ ''</pre>'' @ c)"

lemma between_split:
  assumes i: "indexOf s opn 0 = Some i" and n: "n = length opn"
    and j: "indexOf s cls (i + n) = Some j"
  shows "s = take i s @ opn @ substring s (i + n) j @ cls @ drop (j + length cls) s"
proof -
  from indexOf_SomeD(2,3) [OF i] n have si: "startsWith (drop i s) opn" and li: "i + n \<le> length s"
    by simp_all
  from indexOf_SomeD(1,2,3) [OF j] li have ij: "i + n \<le> j" and sj: "startsWith (drop j s) cls"
    and lj: "j \<le> length s"
    by simp_all
  from startsWith_split [OF si] n have c1: "s = take i s @ opn @ drop (i + n) s" by simp
  from sj ij have "startsWith (drop (j - (i + n)) (drop (i + n) s)) cls" by simp
  from startsWith_split [OF this] ij
  have c2: "drop (i + n) s = take (j - (i + n)) (drop (i + n) s) @ cls @ drop (j + length cls) s"
    by (simp add: add.commute)
  from ij li lj have "substring s (i + n) j = take (j - (i + n)) (drop (i + n) s)"
    by (simp add: substring_def Let_def min_def max_def)
  with c1 c2 show ?thesis by metis
qed

lemma between_found:
  assumes "s = a @ opn @ b @ cls @ c" and n: "n = length opn"
  shows "\<exists>i j. indexOf s opn 0 = Some i \<and> indexOf s cls (i + n) = Some j"
proof -
  from assms have "startsWith (drop (length a) s) opn" by (simp add: startsWith_prefix)
  from indexOf_found [OF this, of 0] obtain i where i: "indexOf s opn 0 = Some i" and ia: "i \<le> length a"
    by auto
  from assms have "drop (length a + n + length b) s = cls @ c" by simp
  then have "startsWith (drop (length a + n + length b) s) cls" by (simp add: startsWith_prefix)
  from indexOf_found [OF this, of "i + n"] ia obtain j where "indexOf s cls (i + n) = Some j"
    by auto
  with i show ?thesis by blast
qed

lemma preMatch_Some: "preMatch chunk \<noteq> None \<longleftrightarrow> hasPreBlock chunk"
proof
  assume "preMatch chunk \<noteq> None"
  then obtain i j where i: "indexOf chunk ''<pre>'' 0 = Some i"
    and j: "indexOf chunk ''</pre>'' (i + 5) = Some j"
    by (auto simp: preMatch_def split: option.splits)
  have "5 = length ''<pre>''" by simp
  from between_split [OF i this j] show "hasPreBlock chunk"
    unfolding hasPreBlock_def by blast
next
  assume "hasPreBlock chunk"
  then obtain a b c where c: "chunk = a @ ''<pre>'' @ b @ ''</pre>'' @ c"
    unfolding hasPreBlock_def by blast
  have "5 = length ''<pre>''" by simp
  from between_found [OF c this] show "preMatch chunk \<noteq> None"
    by (auto simp: preMatch_def)
qed


text \<open>A chunk starts with a run of fifteen decimal digits.\<close>

definition startsWithImei :: "string \<Rightarrow> bool" where
  "startsWithImei chunk = (\<exists>ds rest. chunk = ds @ rest \<and> length ds = 15 \<and> (\<forall>c \<in> set ds. isDigit c))"

lemma imeiMatch_SomeD: "imeiMatch chunk = Some v \<Longrightarrow> v = take 15 chunk \<and> length v = 15 \<and> (\<forall>c \<in> set v. isDigit c)"
  by (auto simp: imeiMatch_def list_all_iff split: if_splits)

lemma imeiMatch_startsWithImei: "imeiMatch chunk \<noteq> None \<longleftrightarrow> startsWithImei chunk"
proof
  assume "imeiMatch chunk \<noteq> None"
  then obtain v where v: "imeiMatch chunk = Some v" by auto
  from imeiMatch_SomeD [OF v] have "v = take 15 chunk" "length v = 15" "\<forall>c \<in> set v. isDigit c"
    by blast+
  then have "chunk = v @ drop 15 chunk" "length v = 15" "\<forall>c \<in> set v. isDigit c"
    by simp_all
  then show "startsWithImei chunk" unfolding startsWithImei_def by blast
next
  assume "startsWithImei chunk"
  then obtain ds rest where "chunk = ds @ rest" "length ds = 15" "\<forall>c \<in> set ds. isDigit c"
    unfolding startsWithImei_def by blast
  then show "imeiMatch chunk \<noteq> None"
    by (simp add: imeiMatch_def list_all_iff)
qed

lemma take_takeWhile_prefix: "n \<le> length (takeWhile P xs) \<Longrightarrow> take n xs = take n (takeWhile P xs)"
proof -
  assume "n \<le> length (takeWhile P xs)"
  then have "take n (takeWhile P xs @ dropWhile P xs) = take n (takeWhile P xs)"
    by (simp only: take_append) simp
  then show ?thesis by simp
qed

lemma imeiMatch_takeWhile: "imeiMatch chunk \<noteq> None \<longleftrightarrow> 15 \<le> length (takeWhile isDigit chunk)"
proof
  assume "imeiMatch chunk \<noteq> None"
  then have l: "15 \<le> length chunk" and d: "\<forall>c \<in> set (take 15 chunk). isDigit c"
    by (auto simp: imeiMatch_def list_all_iff split: if_splits)
  have "\<And>i. i < 15 \<Longrightarrow> isDigit (chunk ! i)"
  proof -
    fix i :: nat assume i: "i < 15"
    with l have "take 15 chunk ! i \<in> set (take 15 chunk)" by (intro nth_mem) simp
    with d i show "isDigit (chunk ! i)" by simp
  qed
  from length_takeWhile_less_P_nth [of 15 isDigit chunk, OF this l] show "15 \<le> length (takeWhile isDigit chunk)" by simp
next
  assume a: "15 \<le> length (takeWhile isDigit chunk)"
  from take_takeWhile_prefix [OF a] have t: "take 15 chunk = take 15 (takeWhile isDigit chunk)" .
  have "set (take 15 (takeWhile isDigit chunk)) \<subseteq> set (takeWhile isDigit chunk)" by (rule set_take_subset)
  then have "\<forall>c \<in> set (take 15 (takeWhile isDigit chunk)). isDigit c"
    by (auto dest: set_takeWhileD)
  moreover from a have "15 \<le> length chunk"
    using length_takeWhile_le [of isDigit chunk] by simp
  ultimately show "imeiMatch chunk \<noteq> None"
    using t by (simp add: imeiMatch_def list_all_iff)
qed

lemma buildDevice_imei: "imei (buildDevice i v pc) = v"
  by (simp add: buildDevice_def Let_def)

lemma buildDevice_rawText: "rawText (buildDevice i v pc) = pc"
  by (simp add: buildDevice_def Let_def)

lemma parseChunk_None_iff: "parseChunk i chunk = None \<longleftrightarrow> imeiMatch chunk = None \<or> preMatch chunk = None"
  by (simp add: parseChunk_def split: option.splits)

lemma parseChunk_SomeD:
  "parseChunk i chunk = Some d \<Longrightarrow> imeiMatch chunk = Some (imei d) \<and> preMatch chunk = Some (rawText d)"
  by (auto simp: parseChunk_def buildDevice_imei buildDevice_rawText split: option.splits)

lemma parseChunks_imei:
  "map imei (parseChunks i chunks) = map (take 15) (filter (\<lambda>chunk. parseChunk 0 chunk \<noteq> None) chunks)"
proof (induction chunks arbitrary: i)
  case Nil
  show ?case by simp
next
  case (Cons chunk chunks)
  show ?case
  proof (cases "parseChunk i chunk")
    case None
    then have "parseChunk 0 chunk = None" by (simp add: parseChunk_None_iff)
    with None Cons.IH show ?thesis by simp
  next
    case (Some d)
    then have "parseChunk 0 chunk \<noteq> None" using parseChunk_None_iff [of i chunk] parseChunk_None_iff [of 0 chunk] by simp
    moreover from parseChunk_SomeD [OF Some] have "imei d = take 15 chunk"
      by (auto dest: imeiMatch_SomeD)
    ultimately show ?thesis using Some Cons.IH by simp
  qed
qed

lemma parseChunks_mem:
  "d \<in> set (parseChunks i chunks) \<Longrightarrow> \<exists>j chunk. chunk \<in> set chunks \<and> parseChunk j chunk = Some d"
proof (induction chunks arbitrary: i)
  case Nil
  then show ?case by simp
next
  case (Cons chunk chunks)
  show ?case
  proof (cases "parseChunk i chunk")
    case None
    with Cons.prems have "d \<in> set (parseChunks (Suc i) chunks)" by simp
    from Cons.IH [OF this] show ?thesis by auto
  next
    case (Some d')
    with Cons.prems have "d = d' \<or> d \<in> set (parseChunks (Suc i) chunks)" by simp
    then show ?thesis
    proof
      assume "d = d'"
      with Some have "chunk \<in> set (chunk # chunks) \<and> parseChunk i chunk = Some d" by simp
      then show ?thesis by blast
    next
      assume "d \<in> set (parseChunks (Suc i) chunks)"
      from Cons.IH [OF this] show ?thesis by auto
    qed
  qed
qed

lemma parse_device_built:
  "d \<in> set (parseSickwHtml html) \<Longrightarrow> \<exists>i v pc. d = buildDevice i v pc"
proof -
  assume "d \<in> set (parseSickwHtml html)"
  then obtain j chunk where "parseChunk j chunk = Some d"
    unfolding parseSickwHtml_def by (blast dest: parseChunks_mem)
  then show ?thesis
    by (auto simp: parseChunk_def split: option.splits)
qed

text \<open>
  Claim C8. For every input HTML string, every device that \<open>parseSickwHtml\<close>
  emits has an \<open>imei\<close> of exactly fifteen ASCII digits. The emitted devices are,
  in order, those of the candidate segments (the pieces after the first one of the
  split at the IMEI marker) that start with fifteen digits and contain a preformatted
  block: any other segment is dropped whole and leaves no record.
\<close>

theorem extractor_imei_fifteen_digits:
  "(\<forall>d \<in> set (parseSickwHtml html). length (imei d) = 15 \<and> (\<forall>c \<in> set (imei d). isDigit c))
   \<and> map imei (parseSickwHtml html)
       = map (take 15) (filter (\<lambda>chunk. startsWithImei chunk \<and> hasPreBlock chunk)
                          (drop 1 (splitStr html ''<b>IMEI: </b>'')))"
proof
  show "\<forall>d \<in> set (parseSickwHtml html). length (imei d) = 15 \<and> (\<forall>c \<in> set (imei d). isDigit c)"
  proof
    fix d assume "d \<in> set (parseSickwHtml html)"
    then obtain j chunk where "parseChunk j chunk = Some d"
      unfolding parseSickwHtml_def by (blast dest: parseChunks_mem)
    then have "imeiMatch chunk = Some (imei d)" by (simp add: parseChunk_SomeD)
    then show "length (imei d) = 15 \<and> (\<forall>c \<in> set (imei d). isDigit c)"
      by (simp add: imeiMatch_SomeD)
  qed
next
  have "\<And>chunk. parseChunk 0 chunk \<noteq> None \<longleftrightarrow> startsWithImei chunk \<and> hasPreBlock chunk"
    by (simp add: parseChunk_None_iff imeiMatch_startsWithImei [symmetric] preMatch_Some [symmetric])
  then show "map imei (parseSickwHtml html)
       = map (take 15) (filter (\<lambda>chunk. startsWithImei chunk \<and> hasPreBlock chunk)
                          (drop 1 (splitStr html ''<b>IMEI: </b>'')))"
    by (simp add: parseSickwHtml_def parseChunks_imei)
qed

theorem extractor_imei_fifteen_digits_witness:
  "map imei (parseSickwHtml ''x<b>IMEI: </b>356789012345678<pre>A: b</pre><b>IMEI: </b>35678<pre></pre>'')
     = [''356789012345678'']
   \<and> length (imei (hd (parseSickwHtml
          ''x<b>IMEI: </b>356789012345678<pre>A: b</pre><b>IMEI: </b>35678<pre></pre>''))) = 15"
proof -
  let ?html = "''x<b>IMEI: </b>356789012345678<pre>A: b</pre><b>IMEI: </b>35678<pre></pre>''"
  have m: "map imei (parseSickwHtml ?html) = [''356789012345678'']"
    by code_simp
  then have "parseSickwHtml ?html \<noteq> []" by auto
  then have "hd (parseSickwHtml ?html) \<in> set (parseSickwHtml ?html)" by simp
  with extractor_imei_fifteen_digits [of ?html]
  have "length (imei (hd (parseSickwHtml ?html))) = 15" by blast
  with m show ?thesis by (intro conjI)
qed

lemma parseChunks_fields:
  "map (\<lambda>d. (imei d, Some (rawText d))) (parseChunks i chunks)
     = map (\<lambda>chunk. (take 15 chunk, preMatch chunk))
         (filter (\<lambda>chunk. parseChunk 0 chunk \<noteq> None) chunks)"
proof (induction chunks arbitrary: i)
  case Nil
  show ?case by simp
next
  case (Cons chunk chunks)
  show ?case
  proof (cases "parseChunk i chunk")
    case None
    then have "parseChunk 0 chunk = None" by (simp add: parseChunk_None_iff)
    with None Cons.IH show ?thesis by simp
  next
    case (Some d)
    then have "parseChunk 0 chunk \<noteq> None"
      using parseChunk_None_iff [of i chunk] parseChunk_None_iff [of 0 chunk] by simp
    moreover from parseChunk_SomeD [OF Some]
    have "imei d = take 15 chunk" and "preMatch chunk = Some (rawText d)"
      by (auto dest: imeiMatch_SomeD)
    ultimately show ?thesis using Some Cons.IH by simp
  qed
qed

lemma parseChunk_accepts:
  "parseChunk i chunk \<noteq> None \<longleftrightarrow> 15 \<le> length (takeWhile isDigit chunk) \<and> hasPreBlock chunk"
  by (simp add: parseChunk_None_iff imeiMatch_takeWhile [symmetric] preMatch_Some [symmetric])

text \<open>
  Claim C10, as stated, fails: a segment that begins with 16 or more digits is not
  accepted when it holds no preformatted block, so not only the segments with a short
  digit run are discarded. The only segment below begins with 17 digits and is dropped.
\<close>

theorem long_digit_run_counterexample:
  "drop 1 (splitStr ''<b>IMEI: </b>35678901234567899 no block'' ''<b>IMEI: </b>'')
     = [''35678901234567899 no block'']
   \<and> length (takeWhile isDigit ''35678901234567899 no block'') = 17
   \<and> parseSickwHtml ''<b>IMEI: </b>35678901234567899 no block'' = []"
  by (intro conjI; code_simp)

text \<open>
  Claim C10, amended. The extractor does not require the digit run at the start of a
  segment to be exactly fifteen digits long. For every input, the emitted devices are,
  in order, those of the segments (the pieces after the first one of the split at the
  IMEI marker) whose leading run of decimal digits has length at least fifteen and which
  contain a preformatted block; the \<open>imei\<close> of such a device is the first fifteen
  digits of the run, and the remaining digits stay in the segment, from which the block
  is extracted unchanged. A segment whose leading digit run is shorter than fifteen, or
  which contains no preformatted block, is discarded, however long its digit run.
\<close>

theorem long_digit_run_accepted:
  "map (\<lambda>d. (imei d, Some (rawText d))) (parseSickwHtml html)
     = map (\<lambda>chunk. (take 15 (takeWhile isDigit chunk), preMatch chunk))
         (filter (\<lambda>chunk. 15 \<le> length (takeWhile isDigit chunk) \<and> hasPreBlock chunk)
            (drop 1 (splitStr html ''<b>IMEI: </b>'')))"
proof -
  let ?chunks = "drop 1 (splitStr html ''<b>IMEI: </b>'')"
  let ?acc = "\<lambda>chunk. 15 \<le> length (takeWhile isDigit chunk) \<and> hasPreBlock chunk"
  have acc: "(\<lambda>chunk. parseChunk 0 chunk \<noteq> None) = ?acc"
    by (intro ext) (rule parseChunk_accepts)
  have "map (\<lambda>chunk. (take 15 chunk, preMatch chunk)) (filter ?acc ?chunks)
      = map (\<lambda>chunk. (take 15 (takeWhile isDigit chunk), preMatch chunk)) (filter ?acc ?chunks)"
  proof (rule map_cong [OF refl])
    fix chunk assume "chunk \<in> set (filter ?acc ?chunks)"
    then have "15 \<le> length (takeWhile isDigit chunk)" by simp
    then have "take 15 chunk = take 15 (takeWhile isDigit chunk)" by (rule take_takeWhile_prefix)
    then show "(take 15 chunk, preMatch chunk) = (take 15 (takeWhile isDigit chunk), preMatch chunk)"
      by simp
  qed
  then show ?thesis
    by (simp only: parseSickwHtml_def parseChunks_fields acc)
qed

theorem long_digit_run_accepted_witness:
  "drop 1 (splitStr
      ''x<b>IMEI: </b>35678901234567899<pre>A: b</pre><b>IMEI: </b>35678901234567899 no block<b>IMEI: </b>35678<pre></pre>''
      ''<b>IMEI: </b>'')
     = [''35678901234567899<pre>A: b</pre>'', ''35678901234567899 no block'', ''35678<pre></pre>'']
   \<and> map (\<lambda>d. (imei d, Some (rawText d))) (parseSickwHtml
      ''x<b>IMEI: </b>35678901234567899<pre>A: b</pre><b>IMEI: </b>35678901234567899 no block<b>IMEI: </b>35678<pre></pre>'')
     = [(''356789012345678'', Some ''A: b'')]
   \<and> filter (\<lambda>chunk. 15 \<le> length (takeWhile isDigit chunk) \<and> hasPreBlock chunk)
        [''35678901234567899<pre>A: b</pre>'', ''35678901234567899 no block'', ''35678<pre></pre>'']
     = [''35678901234567899<pre>A: b</pre>'']"
proof -
  let ?html = "''x<b>IMEI: </b>35678901234567899<pre>A: b</pre><b>IMEI: </b>35678901234567899 no block<b>IMEI: </b>35678<pre></pre>''"
  let ?acc = "\<lambda>chunk. 15 \<le> length (takeWhile isDigit chunk) \<and> hasPreBlock chunk"
  have a: "drop 1 (splitStr ?html ''<b>IMEI: </b>'')
     = [''35678901234567899<pre>A: b</pre>'', ''35678901234567899 no block'', ''35678<pre></pre>'']"
    by code_simp
  have p: "preMatch ''35678901234567899<pre>A: b</pre>'' \<noteq> None"
    "preMatch ''35678901234567899 no block'' = None"
    by code_simp+
  have l: "15 \<le> length (takeWhile isDigit ''35678901234567899<pre>A: b</pre>'')"
    "\<not> 15 \<le> length (takeWhile isDigit ''35678<pre></pre>'')"
    by code_simp+
  from p l have f: "filter ?acc
        [''35678901234567899<pre>A: b</pre>'', ''35678901234567899 no block'', ''35678<pre></pre>'']
     = [''35678901234567899<pre>A: b</pre>'']"
    by (simp add: preMatch_Some [symmetric])
  have t: "take 15 (takeWhile isDigit ''35678901234567899<pre>A: b</pre>'') = ''356789012345678''"
    "preMatch ''35678901234567899<pre>A: b</pre>'' = Some ''A: b''"
    by code_simp+
  from long_digit_run_accepted [of ?html]
  have "map (\<lambda>d. (imei d, Some (rawText d))) (parseSickwHtml ?html)
     = map (\<lambda>chunk. (take 15 (takeWhile isDigit chunk), preMatch chunk))
         (filter ?acc [''35678901234567899<pre>A: b</pre>'', ''35678901234567899 no block'', ''35678<pre></pre>''])"
    by (simp only: a)
  then have r: "map (\<lambda>d. (imei d, Some (rawText d))) (parseSickwHtml ?html)
     = [(''356789012345678'', Some ''A: b'')]"
    by (simp only: f t list.map)
  from a r f show ?thesis by (intro conjI)
qed

section \<open>The buckets of the export formatter\<close>

lemma bucket_exactly_one: "length (filter (\<lambda>p. p d) bucketFilters) = 1"
  by (cases "group' d"; cases "isActive d"; cases "icloudLock d = Some ''ON''")
     (simp_all add: bucketFilters_def isIcloud_def isTmobileNonActive_def isTmobileActive_def
        isLockedOtherNonActive_def isLockedOtherActive_def isUnlockedNonActive_def
        isUnlockedActive_def)

lemma mset_concat_filters_Cons:
  "mset (concat (map (\<lambda>p. filter p (x # xs)) ps))
     = mset (concat (map (\<lambda>p. filter p xs) ps)) + replicate_mset (length (filter (\<lambda>p. p x) ps)) x"
  by (induction ps) simp_all

lemma mset_buckets: "mset (concat (buckets devices)) = mset devices"
proof (induction devices)
  case Nil
  show ?case by (simp add: buckets_def)
next
  case (Cons d devices)
  have "mset (concat (buckets (d # devices)))
          = mset (concat (buckets devices)) + replicate_mset (length (filter (\<lambda>p. p d) bucketFilters)) d"
    unfolding buckets_def by (rule mset_concat_filters_Cons)
  with Cons.IH show ?case by (simp add: bucket_exactly_one)
qed

lemma sum_length_buckets: "sum_list (map length (buckets devices)) = length devices"
proof -
  have "sum_list (map length (buckets devices)) = length (concat (buckets devices))"
    by (simp add: length_concat)
  also have "\<dots> = size (mset (concat (buckets devices)))" by simp
  also have "\<dots> = length devices" by (simp only: mset_buckets size_mset)
  finally show ?thesis .
qed

lemma length_bucketFilters: "length bucketFilters = 7"
  by (simp add: bucketFilters_def)

lemma buckets_nth: "i < 7 \<Longrightarrow> buckets devices ! i = filter (bucketFilters ! i) devices"
  unfolding buckets_def using nth_map [of i bucketFilters "\<lambda>p. filter p devices"]
  by (simp add: length_bucketFilters)

lemma filter_two_hits:
  assumes "i < j" "j < length ps" "P (ps ! i)" "P (ps ! j)"
  shows "2 \<le> length (filter P ps)"
proof -
  from assms(2) have split: "ps = take j ps @ ps ! j # drop (Suc j) ps"
    by (rule id_take_nth_drop)
  from assms(1,2) have "take j ps ! i = ps ! i" and "i < length (take j ps)" by simp_all
  then have "ps ! i \<in> set (take j ps)" by (metis nth_mem)
  with assms(3) have "filter P (take j ps) \<noteq> []" by (auto simp: filter_empty_conv)
  then have one: "1 \<le> length (filter P (take j ps))" by (cases "filter P (take j ps)") simp_all
  have "length (filter P ps) = length (filter P (take j ps @ ps ! j # drop (Suc j) ps))"
    using split by simp
  also have "\<dots> = length (filter P (take j ps)) + 1 + length (filter P (drop (Suc j) ps))"
    using assms(4) by simp
  finally show ?thesis using one by simp
qed

lemma bucket_filters_disjoint:
  assumes "i < 7" "j < 7" "i \<noteq> j"
  shows "\<not> ((bucketFilters ! i) d \<and> (bucketFilters ! j) d)"
proof
  assume both: "(bucketFilters ! i) d \<and> (bucketFilters ! j) d"
  from assms(3) have "i < j \<or> j < i" by auto
  then have "2 \<le> length (filter (\<lambda>p. p d) bucketFilters)"
  proof
    assume "i < j"
    from filter_two_hits [of i j bucketFilters "\<lambda>p. p d", OF this] assms(2) both
    show ?thesis by (simp add: length_bucketFilters)
  next
    assume "j < i"
    from filter_two_hits [of j i bucketFilters "\<lambda>p. p d", OF this] assms(1) both
    show ?thesis by (simp add: length_bucketFilters)
  qed
  then show False using bucket_exactly_one [of d] by simp
qed

text \<open>
  Claim C7. The seven buckets of the export formatter partition its input: every
  device satisfies exactly one of the seven filters, the bucket sizes add up to the
  length of the input, the buckets together hold the devices of the input with their
  multiplicities, and two different buckets share no device. A device whose
  \<open>icloudLock\<close> is \<open>ON\<close> satisfies the first filter (ICLOUD) and no other,
  whatever its carrier group and activation flag. The filters are the seven of
  \<open>generateExportText\<close>, whose text is built from these buckets (lemma
  \<open>generateExportText_sections\<close> below).
\<close>

theorem export_buckets_partition:
  "length (filter (\<lambda>p. p d) bucketFilters) = 1
   \<and> sum_list (map length (buckets devices)) = length devices
   \<and> mset (concat (buckets devices)) = mset devices
   \<and> (\<forall>i<7. \<forall>j<7. i \<noteq> j \<longrightarrow> set (buckets devices ! i) \<inter> set (buckets devices ! j) = {})
   \<and> (icloudLock d = Some ''ON'' \<longrightarrow>
        map (\<lambda>p. p d) bucketFilters = [True, False, False, False, False, False, False])"
proof (intro conjI)
  show "length (filter (\<lambda>p. p d) bucketFilters) = 1" by (rule bucket_exactly_one)
  show "sum_list (map length (buckets devices)) = length devices" by (rule sum_length_buckets)
  show "mset (concat (buckets devices)) = mset devices" by (rule mset_buckets)
  show "\<forall>i<7. \<forall>j<7. i \<noteq> j \<longrightarrow> set (buckets devices ! i) \<inter> set (buckets devices ! j) = {}"
  proof (intro allI impI)
    fix i j :: nat assume ij: "i < 7" "j < 7" "i \<noteq> j"
    show "set (buckets devices ! i) \<inter> set (buckets devices ! j) = {}"
    proof (rule ccontr)
      assume "set (buckets devices ! i) \<inter> set (buckets devices ! j) \<noteq> {}"
      then obtain x where "x \<in> set (buckets devices ! i)" "x \<in> set (buckets devices ! j)" by blast
      with ij have "(bucketFilters ! i) x \<and> (bucketFilters ! j) x" by (simp add: buckets_nth)
      with bucket_filters_disjoint [OF ij] show False by blast
    qed
  qed
  show "icloudLock d = Some ''ON'' \<longrightarrow>
        map (\<lambda>p. p d) bucketFilters = [True, False, False, False, False, False, False]"
    by (simp add: bucketFilters_def isIcloud_def isTmobileNonActive_def isTmobileActive_def
        isLockedOtherNonActive_def isLockedOtherActive_def isUnlockedNonActive_def
        isUnlockedActive_def)
qed

text \<open>Two devices for concrete checks: one locked to iCloud, one not.\<close>

definition sampleLocked :: Device where
  "sampleLocked = \<lparr> id' = ''356789012345678-1'', imei = ''356789012345678'', imei2 = Some [],
     modelDesc = ''iPhone 12-USA'', serial = Some ''F2LXX'', warrantyStatus = Some [],
     icloudLock = Some ''ON'', carrier = Some ''T-Mobile'', simLock = Some ''Locked'',
     estPurchaseDate = Some [], activationStatus = Some ''Activated'',
     rawText = [], group' = TMobileSprint, isActive = True \<rparr>"

definition sampleTmobile :: Device where
  "sampleTmobile = \<lparr> id' = ''356789012345670-2'', imei = ''356789012345670'', imei2 = Some [],
     modelDesc = ''iPhone 14'', serial = Some [], warrantyStatus = Some [],
     icloudLock = Some ''OFF'', carrier = Some ''T-Mobile'', simLock = Some ''Locked'',
     estPurchaseDate = Some [], activationStatus = Some ''Not Activated'',
     rawText = [], group' = TMobileSprint, isActive = False \<rparr>"

theorem export_buckets_partition_witness:
  "icloudLock sampleLocked = Some ''ON''
   \<and> map (\<lambda>p. p sampleLocked) bucketFilters = [True, False, False, False, False, False, False]
   \<and> sum_list (map length (buckets [sampleLocked, sampleTmobile])) = 2
   \<and> set (buckets [sampleLocked, sampleTmobile] ! 0) \<inter> set (buckets [sampleLocked, sampleTmobile] ! 1) = {}
   \<and> buckets [sampleLocked, sampleTmobile] ! 0 = [sampleLocked]
   \<and> buckets [sampleLocked, sampleTmobile] ! 1 = [sampleTmobile]"
proof -
  note inst = export_buckets_partition [of sampleLocked "[sampleLocked, sampleTmobile]"]
  have on: "icloudLock sampleLocked = Some ''ON''" by (simp add: sampleLocked_def)
  with inst have a: "map (\<lambda>p. p sampleLocked) bucketFilters = [True, False, False, False, False, False, False]"
    by blast
  from inst have b: "sum_list (map length (buckets [sampleLocked, sampleTmobile])) = 2" by simp
  from inst have "\<forall>i<7. \<forall>j<7. i \<noteq> j \<longrightarrow>
      set (buckets [sampleLocked, sampleTmobile] ! i) \<inter> set (buckets [sampleLocked, sampleTmobile] ! j) = {}"
    by blast
  then have c: "set (buckets [sampleLocked, sampleTmobile] ! 0) \<inter> set (buckets [sampleLocked, sampleTmobile] ! 1) = {}"
    by simp
  have d: "buckets [sampleLocked, sampleTmobile] ! 0 = [sampleLocked]"
    by (simp add: buckets_def bucketFilters_def isIcloud_def sampleLocked_def sampleTmobile_def)
  have e: "buckets [sampleLocked, sampleTmobile] ! 1 = [sampleTmobile]"
    by (simp add: buckets_def bucketFilters_def isTmobileNonActive_def sampleLocked_def sampleTmobile_def)
  from on a b c d e show ?thesis by (intro conjI)
qed

section \<open>The classifier\<close>

text \<open>A text contains a pattern case-insensitively when some contiguous piece of the
  text equals the pattern once both are put in lower case.\<close>

definition containsCI :: "string \<Rightarrow> string \<Rightarrow> bool" where
  "containsCI txt pat = (\<exists>u. sublist u txt \<and> toLowerCase u = toLowerCase pat)"

text \<open>The ordered rules of the specification for the carrier group.\<close>

definition carrierGroupRules :: "string \<Rightarrow> string \<Rightarrow> Group" where
  "carrierGroupRules carrierRaw simLockStatus =
     (if containsCI simLockStatus ''unlocked'' \<or> containsCI carrierRaw ''unlock''
         \<or> containsCI carrierRaw ''open policy'' then Unlocked
      else if containsCI carrierRaw ''t-mobile'' \<or> containsCI carrierRaw ''sprint'' then TMobileSprint
      else if containsCI carrierRaw ''at&t'' then ATT
      else if containsCI carrierRaw ''verizon'' then Verizon
      else Other)"

lemma letters_disjoint:
  "set (lowerChars @ latin1Lower) \<inter> set (upperChars @ latin1Upper) = {}"
proof -
  have "list_all (\<lambda>c. c \<notin> set (upperChars @ latin1Upper)) (lowerChars @ latin1Lower)"
    by code_simp
  then show ?thesis unfolding list_all_iff by blast
qed

lemma length_letters: "length (upperChars @ latin1Upper) = length (lowerChars @ latin1Lower)"
  by (simp add: lowerChars_def upperChars_def latin1Lower_def latin1Upper_def)

lemma toLowerChar_idem: "toLowerChar (toLowerChar c) = toLowerChar c"
proof (cases "map_of (zip (upperChars @ latin1Upper) (lowerChars @ latin1Lower)) c")
  case None
  then show ?thesis by (simp add: toLowerChar_def)
next
  case (Some l)
  then have "(c, l) \<in> set (zip (upperChars @ latin1Upper) (lowerChars @ latin1Lower))"
    by (rule map_of_SomeD)
  then have "l \<in> set (lowerChars @ latin1Lower)" by (rule set_zip_rightD)
  with letters_disjoint have "l \<notin> set (upperChars @ latin1Upper)" by blast
  then have "l \<notin> fst ` set (zip (upperChars @ latin1Upper) (lowerChars @ latin1Lower))"
    using map_fst_zip [OF length_letters] by (metis set_map)
  then have "map_of (zip (upperChars @ latin1Upper) (lowerChars @ latin1Lower)) l = None"
    by (simp add: map_of_eq_None_iff)
  with Some show ?thesis by (simp add: toLowerChar_def)
qed

lemma toLowerCase_idem: "toLowerCase (toLowerCase s) = toLowerCase s"
  by (simp add: toLowerCase_def toLowerChar_idem)

lemma includes_lower_containsCI:
  "includes_str (toLowerCase txt) (toLowerCase pat) \<longleftrightarrow> containsCI txt pat"
proof
  assume "includes_str (toLowerCase txt) (toLowerCase pat)"
  then have "sublist (toLowerCase pat) (toLowerCase txt)"
    by (simp only: includes_sublist)
  then have "sublist (toLowerCase pat) (map toLowerChar txt)"
    by (simp only: toLowerCase_def)
  from sublist_map_rightE [OF this] obtain u where u: "sublist u txt" "toLowerCase pat = map toLowerChar u"
    by blast
  from u(2) have "toLowerCase u = toLowerCase pat" by (simp only: toLowerCase_def)
  with u(1) show "containsCI txt pat" unfolding containsCI_def by blast
next
  assume "containsCI txt pat"
  then obtain u where u: "sublist u txt" "toLowerCase u = toLowerCase pat"
    unfolding containsCI_def by blast
  from u(1) have "sublist (map toLowerChar u) (map toLowerChar txt)" by (rule map_mono_sublist)
  then have "sublist (toLowerCase u) (toLowerCase txt)" by (simp only: toLowerCase_def)
  with u(2) show "includes_str (toLowerCase txt) (toLowerCase pat)"
    by (simp only: includes_sublist)
qed

lemma lower_patterns:
  "toLowerCase ''unlocked'' = ''unlocked''" "toLowerCase ''unlock'' = ''unlock''"
  "toLowerCase ''open policy'' = ''open policy''" "toLowerCase ''t-mobile'' = ''t-mobile''"
  "toLowerCase ''sprint'' = ''sprint''" "toLowerCase ''at&t'' = ''at&t''"
  "toLowerCase ''verizon'' = ''verizon''" "toLowerCase ''not activated'' = ''not activated''"
  by code_simp+

lemma includes_lower_pattern:
  "toLowerCase pat = pat \<Longrightarrow> includes_str (toLowerCase txt) pat \<longleftrightarrow> containsCI txt pat"
  using includes_lower_containsCI [of "txt" pat] by simp

lemma sublist_containsCI:
  "sublist v txt \<Longrightarrow> toLowerCase v = toLowerCase pat \<Longrightarrow> containsCI txt pat"
  unfolding containsCI_def by blast

lemma buildDevice_group:
  "carrier (buildDevice i v pc) = Some (getValue pc ''Locked Carrier'')"
  "simLock (buildDevice i v pc) = Some (getValue pc ''Sim-Lock Status'')"
  "group' (buildDevice i v pc)
     = classifyGroup (getValue pc ''Locked Carrier'') (getValue pc ''Sim-Lock Status'')"
  by (simp_all add: buildDevice_def Let_def)

lemma classifyGroup_carrierGroupRules:
  "classifyGroup carrierRaw simLockV = carrierGroupRules carrierRaw simLockV"
  by (simp add: classifyGroup_def carrierGroupRules_def Let_def includes_lower_pattern lower_patterns)

text \<open>
  Claim C5. The carrier group that the extractor derives from the extracted sim-lock
  and carrier texts is the one given by the ordered, case-insensitive rules of the
  specification. In particular a device whose sim-lock text contains \<open>Unlocked\<close>
  is classified \<open>Unlocked\<close> even when its carrier text contains \<open>AT&T\<close>. Every
  device that the extractor emits stores, as \<open>carrier\<close> and \<open>simLock\<close>, the texts
  extracted after the \<open>Locked Carrier:\<close> and \<open>Sim-Lock Status:\<close> labels of its
  block, and its group is the one these rules give for the two stored texts.
\<close>

theorem classifyGroup_rules:
  "classifyGroup carrierRaw simLockV = carrierGroupRules carrierRaw simLockV
   \<and> (sublist ''Unlocked'' simLockV \<and> sublist ''AT&T'' carrierRaw
        \<longrightarrow> classifyGroup carrierRaw simLockV = Unlocked)
   \<and> (\<forall>d \<in> set (parseSickwHtml html).
         \<exists>c s. carrier d = Some c \<and> simLock d = Some s
               \<and> c = getValue (rawText d) ''Locked Carrier''
               \<and> s = getValue (rawText d) ''Sim-Lock Status''
               \<and> group' d = carrierGroupRules c s)"
proof (intro conjI)
  show eq: "classifyGroup carrierRaw simLockV = carrierGroupRules carrierRaw simLockV"
    by (rule classifyGroup_carrierGroupRules)
  show "sublist ''Unlocked'' simLockV \<and> sublist ''AT&T'' carrierRaw
        \<longrightarrow> classifyGroup carrierRaw simLockV = Unlocked"
  proof
    assume a: "sublist ''Unlocked'' simLockV \<and> sublist ''AT&T'' carrierRaw"
    have "toLowerCase ''Unlocked'' = toLowerCase ''unlocked''"
      by code_simp
    with a have "containsCI simLockV ''unlocked''" by (blast intro: sublist_containsCI)
    then show "classifyGroup carrierRaw simLockV = Unlocked"
      by (simp add: eq carrierGroupRules_def)
  qed
  show "\<forall>d \<in> set (parseSickwHtml html).
         \<exists>c s. carrier d = Some c \<and> simLock d = Some s
               \<and> c = getValue (rawText d) ''Locked Carrier''
               \<and> s = getValue (rawText d) ''Sim-Lock Status''
               \<and> group' d = carrierGroupRules c s"
  proof
    fix d assume "d \<in> set (parseSickwHtml html)"
    then obtain i v pc where "d = buildDevice i v pc" by (blast dest: parse_device_built)
    then show "\<exists>c s. carrier d = Some c \<and> simLock d = Some s
               \<and> c = getValue (rawText d) ''Locked Carrier''
               \<and> s = getValue (rawText d) ''Sim-Lock Status''
               \<and> group' d = carrierGroupRules c s"
      by (simp add: buildDevice_group buildDevice_rawText classifyGroup_carrierGroupRules)
  qed
qed

theorem classifyGroup_rules_witness:
  "sublist ''Unlocked'' ''Unlocked'' \<and> sublist ''AT&T'' ''AT&T - USA''
   \<and> classifyGroup ''AT&T - USA'' ''Unlocked'' = Unlocked
   \<and> carrierGroupRules ''AT&T - USA'' ''Unlocked'' = Unlocked
   \<and> classifyGroup ''AT&T - USA'' ''Locked'' = ATT
   \<and> map (\<lambda>d. (carrier d, simLock d))
        (parseSickwHtml ''<b>IMEI: </b>356789012345678<pre>Locked Carrier: AT&T - USA<br>Sim-Lock Status: Unlocked<br></pre>'')
       = [(Some ''AT&T - USA'', Some ''Unlocked'')]
   \<and> map group'
        (parseSickwHtml ''<b>IMEI: </b>356789012345678<pre>Locked Carrier: AT&T - USA<br>Sim-Lock Status: Unlocked<br></pre>'')
       = [Unlocked]"
proof -
  let ?html = "''<b>IMEI: </b>356789012345678<pre>Locked Carrier: AT&T - USA<br>Sim-Lock Status: Unlocked<br></pre>''"
  have a: "sublist ''Unlocked'' ''Unlocked''" by simp
  have b: "sublist ''AT&T'' ''AT&T - USA''"
    using sublist_append_rightI [of "''AT&T''" "'' - USA''"] by simp
  note inst = classifyGroup_rules [of "''AT&T - USA''" "''Unlocked''" ?html]
  from inst a b have c: "classifyGroup ''AT&T - USA'' ''Unlocked'' = Unlocked" by blast
  with inst have d: "carrierGroupRules ''AT&T - USA'' ''Unlocked'' = Unlocked" by simp
  have e: "classifyGroup ''AT&T - USA'' ''Locked'' = ATT" by code_simp
  have f: "map (\<lambda>d. (carrier d, simLock d)) (parseSickwHtml ?html)
             = [(Some ''AT&T - USA'', Some ''Unlocked'')]"
    by code_simp
  then obtain x where x: "parseSickwHtml ?html = [x]" by auto
  with f have cs: "carrier x = Some ''AT&T - USA''" "simLock x = Some ''Unlocked''" by simp_all
  from x have "x \<in> set (parseSickwHtml ?html)" by simp
  with inst obtain c' s' where "carrier x = Some c'" "simLock x = Some s'"
    "group' x = carrierGroupRules c' s'" by blast
  with cs d have "group' x = Unlocked" by simp
  with x have g: "map group' (parseSickwHtml ?html) = [Unlocked]" by simp
  from a b c d e f g show ?thesis by (intro conjI)
qed

section \<open>The activation flag\<close>




















section \<open>The iCloud lock field\<close>

lemma toUpperCase_empty_iff: "toUpperCase v = [] \<longleftrightarrow> v = []"
  by (cases v) (simp_all add: toUpperCase_def toUpperUnits_def)

lemma upper_of_on:
  "list_all (\<lambda>v. toUpperCase v = ''ON'') [''on'', ''On'', ''oN'', ''ON'']"
  by code_simp

lemma upper_of_off:
  "list_all (\<lambda>v. toUpperCase v = ''OFF'')
     [''off'', ''ofF'', ''oFf'', ''oFF'', ''Off'', ''OfF'', ''OFf'', ''OFF'']"
  by code_simp

lemma buildDevice_icloudLock:
  "icloudLock (buildDevice i v pc) = Some (toUpperCase (getValue pc ''iCloud Lock''))"
  by (simp add: buildDevice_def Let_def)

text \<open>The invariant of the specification: the stored value is \<open>ON\<close>, \<open>OFF\<close>
  or empty.\<close>

definition icloudLockNormalized :: "Device \<Rightarrow> bool" where
  "icloudLockNormalized d = (icloudLock d \<in> {Some ''ON'', Some ''OFF'', Some []})"

text \<open>
  Claim C3, as stated, fails: the text after the label is stored upper-cased whatever
  it is. A block with \<open>iCloud Lock: Lost\<close> gives a device whose \<open>icloudLock\<close>
  is \<open>LOST\<close>.
\<close>

theorem icloudLock_counterexample:
  "map icloudLock (parseSickwHtml ''<b>IMEI: </b>356789012345678<pre>iCloud Lock: Lost<br></pre>'')
     = [Some ''LOST'']
   \<and> \<not> list_all icloudLockNormalized
         (parseSickwHtml ''<b>IMEI: </b>356789012345678<pre>iCloud Lock: Lost<br></pre>'')"
proof -
  let ?html = "''<b>IMEI: </b>356789012345678<pre>iCloud Lock: Lost<br></pre>''"
  have a: "map icloudLock (parseSickwHtml ?html) = [Some ''LOST'']" by code_simp
  then obtain d where d: "parseSickwHtml ?html = [d]" by auto
  with a have "icloudLock d = Some ''LOST''" by simp
  then have "\<not> icloudLockNormalized d" by (simp add: icloudLockNormalized_def)
  with d a show ?thesis by simp
qed

text \<open>
  Claim C3, amended. For every device that the extractor emits, the stored
  \<open>icloudLock\<close> is the upper-cased text extracted after the \<open>iCloud Lock:\<close> label
  of its block, whatever that text is: it is not confined to \<open>ON\<close>, \<open>OFF\<close> and the
  empty string. It is \<open>ON\<close> when the text is "on" in any letter case, \<open>OFF\<close> when
  the text is "off" in any letter case, and empty exactly when the text is empty (which
  includes the label being absent).
\<close>

theorem icloudLock_uppercased:
  "\<forall>d \<in> set (parseSickwHtml html).
     icloudLock d = Some (toUpperCase (getValue (rawText d) ''iCloud Lock''))
     \<and> (getValue (rawText d) ''iCloud Lock'' \<in> set [''on'', ''On'', ''oN'', ''ON'']
          \<longrightarrow> icloudLock d = Some ''ON'')
     \<and> (getValue (rawText d) ''iCloud Lock''
            \<in> set [''off'', ''ofF'', ''oFf'', ''oFF'', ''Off'', ''OfF'', ''OFf'', ''OFF'']
          \<longrightarrow> icloudLock d = Some ''OFF'')
     \<and> (icloudLock d = Some [] \<longleftrightarrow> getValue (rawText d) ''iCloud Lock'' = [])"
proof
  fix d assume "d \<in> set (parseSickwHtml html)"
  then obtain i v pc where d: "d = buildDevice i v pc" by (blast dest: parse_device_built)
  let ?v = "getValue (rawText d) ''iCloud Lock''"
  from d have eq: "icloudLock d = Some (toUpperCase ?v)"
    by (simp add: buildDevice_icloudLock buildDevice_rawText)
  have on: "?v \<in> set [''on'', ''On'', ''oN'', ''ON''] \<longrightarrow> toUpperCase ?v = ''ON''"
    using upper_of_on unfolding list_all_iff by blast
  have off: "?v \<in> set [''off'', ''ofF'', ''oFf'', ''oFF'', ''Off'', ''OfF'', ''OFf'', ''OFF'']
               \<longrightarrow> toUpperCase ?v = ''OFF''"
    using upper_of_off unfolding list_all_iff by blast
  have emp: "toUpperCase ?v = [] \<longleftrightarrow> ?v = []" by (rule toUpperCase_empty_iff)
  from eq on off emp
  show "icloudLock d = Some (toUpperCase ?v)
     \<and> (?v \<in> set [''on'', ''On'', ''oN'', ''ON''] \<longrightarrow> icloudLock d = Some ''ON'')
     \<and> (?v \<in> set [''off'', ''ofF'', ''oFf'', ''oFF'', ''Off'', ''OfF'', ''OFf'', ''OFF'']
          \<longrightarrow> icloudLock d = Some ''OFF'')
     \<and> (icloudLock d = Some [] \<longleftrightarrow> ?v = [])"
    by simp
qed

theorem icloudLock_uppercased_witness:
  "map rawText (parseSickwHtml ''<b>IMEI: </b>356789012345678<pre>iCloud Lock: <b>On</b><br></pre>'')
     = [''iCloud Lock: <b>On</b><br>'']
   \<and> getValue ''iCloud Lock: <b>On</b><br>'' ''iCloud Lock'' = ''On''
   \<and> map icloudLock (parseSickwHtml
         ''<b>IMEI: </b>356789012345678<pre>iCloud Lock: <b>On</b><br></pre>'') = [Some ''ON'']"
proof -
  let ?html = "''<b>IMEI: </b>356789012345678<pre>iCloud Lock: <b>On</b><br></pre>''"
  have a: "map rawText (parseSickwHtml ?html) = [''iCloud Lock: <b>On</b><br>'']" by code_simp
  have b: "getValue ''iCloud Lock: <b>On</b><br>'' ''iCloud Lock'' = ''On''" by code_simp
  from a obtain d where d: "parseSickwHtml ?html = [d]" by auto
  with a have r: "rawText d = ''iCloud Lock: <b>On</b><br>''" by simp
  from d have "d \<in> set (parseSickwHtml ?html)" by simp
  with icloudLock_uppercased [of ?html]
  have "getValue (rawText d) ''iCloud Lock'' \<in> set [''on'', ''On'', ''oN'', ''ON'']
          \<longrightarrow> icloudLock d = Some ''ON''"
    by blast
  with r b have "icloudLock d = Some ''ON''" by simp
  with d have c: "map icloudLock (parseSickwHtml ?html) = [Some ''ON'']" by simp
  from a b c show ?thesis by (intro conjI)
qed

section \<open>The field extraction\<close>

text \<open>The text before the first occurrence of a pattern; the whole text when the
  pattern does not occur.\<close>

fun beforeFirst :: "string \<Rightarrow> string \<Rightarrow> string" where
  "beforeFirst pat [] = []"
| "beforeFirst pat (c # cs) = (if startsWith (c # cs) pat then [] else c # beforeFirst pat cs)"

text \<open>The text after the first occurrence of the label followed by a colon.\<close>

definition afterLabel :: "string \<Rightarrow> string \<Rightarrow> string" where
  "afterLabel key preContent =
     drop (length (beforeFirst (key @ '':'') preContent) + length (key @ '':'')) preContent"

text \<open>Tag stripping, entity decoding and trimming: the last line of \<open>getValue\<close>.\<close>

definition cleanValue :: "string \<Rightarrow> string" where
  "cleanValue rawValue = trim (replaceAll ''&nbsp;'' '' '' (stripTags rawValue))"

text \<open>The words of the specification: the value runs to whichever marker comes
  first, a break tag or a newline, or to the end of the block.\<close>

definition fieldTextFirstMarker :: "string \<Rightarrow> string" where
  "fieldTextFirstMarker rest =
     (if length (beforeFirst ''<br'' rest) \<le> length (beforeFirst ''\<newline>'' rest)
      then beforeFirst ''<br'' rest else beforeFirst ''\<newline>'' rest)"

definition getValueFirstMarker :: "string \<Rightarrow> string \<Rightarrow> string" where
  "getValueFirstMarker preContent key =
     (if sublist (key @ '':'') preContent
      then cleanValue (fieldTextFirstMarker (afterLabel key preContent)) else [])"

text \<open>What the source does: the value runs to the next break tag when there is one
  anywhere after the label; only when there is none does it run to the next newline,
  or to the end of the block.\<close>

definition fieldTextBreakFirst :: "string \<Rightarrow> string" where
  "fieldTextBreakFirst rest =
     (if sublist ''<br'' rest then beforeFirst ''<br'' rest else beforeFirst ''\<newline>'' rest)"

lemma beforeFirst_prefix: "prefix (beforeFirst pat s) s"
  by (induction s) simp_all

lemma beforeFirst_take: "take (length (beforeFirst pat s)) s = beforeFirst pat s"
  using beforeFirst_prefix [of pat s] by (metis append_eq_conv_conj prefixE)

lemma beforeFirst_none: "\<not> sublist pat s \<Longrightarrow> beforeFirst pat s = s"
  by (induction s) (auto simp: sublist_Cons_right startsWith_prefix)

lemma beforeFirst_split:
  "sublist pat s \<Longrightarrow> s = beforeFirst pat s @ pat @ drop (length (beforeFirst pat s) + length pat) s"
proof (induction s)
  case Nil
  then show ?case by simp
next
  case (Cons c cs)
  show ?case
  proof (cases "startsWith (c # cs) pat")
    case True
    then have "take (length pat) (c # cs) = pat" by (simp only: startsWith_take)
    then have "c # cs = pat @ drop (length pat) (c # cs)" by (metis append_take_drop_id)
    with True show ?thesis by simp
  next
    case False
    with Cons.prems have "sublist pat cs" by (simp add: sublist_Cons_right startsWith_prefix)
    from Cons.IH [OF this] False show ?thesis by simp
  qed
qed

lemma beforeFirst_least: "prefix (u @ pat) s \<Longrightarrow> length (beforeFirst pat s) \<le> length u"
proof (induction s arbitrary: u)
  case Nil
  then show ?case by simp
next
  case (Cons c cs)
  show ?case
  proof (cases "startsWith (c # cs) pat")
    case True
    then show ?thesis by simp
  next
    case False
    show ?thesis
    proof (cases u)
      case Nil
      with Cons.prems False show ?thesis by (simp add: startsWith_prefix)
    next
      case (Cons a u')
      with Cons.prems have "prefix (u' @ pat) cs" by simp
      from Cons.IH [OF this] False Cons show ?thesis by simp
    qed
  qed
qed

lemma indexOfAux_beforeFirst:
  "indexOfAux pat s i = (if sublist pat s then Some (i + length (beforeFirst pat s)) else None)"
  by (induction s arbitrary: i) (auto simp: sublist_Cons_right startsWith_prefix)

lemma indexOf_beforeFirst:
  "start \<le> length s \<Longrightarrow>
   indexOf s pat start
     = (if sublist pat (drop start s) then Some (start + length (beforeFirst pat (drop start s)))
        else None)"
  by (simp add: indexOf_def indexOfAux_beforeFirst min_def)

lemma substring_from_start:
  assumes "start \<le> length s" and "n \<le> length (drop start s)"
  shows "substring s start (start + n) = take n (drop start s)"
  using assms by (simp add: substring_def Let_def min_def max_def)


lemma length_beforeFirst_le: "length (beforeFirst pat s) \<le> length s"
  using beforeFirst_prefix [of pat s] by (rule prefix_length_le)

lemma getValue_found:
  assumes found: "sublist (key @ '':'') preContent"
  shows "getValue preContent key = cleanValue (fieldTextBreakFirst (afterLabel key preContent))"
proof -
  let ?sk = "key @ '':''"
  let ?idx = "length (beforeFirst ?sk preContent)"
  let ?start = "?idx + length ?sk"
  let ?rest = "drop ?start preContent"
  have idx: "indexOf preContent ?sk 0 = Some ?idx"
    using found indexOf_beforeFirst [of 0 preContent ?sk] by simp
  have "length preContent = length (beforeFirst ?sk preContent @ ?sk @ ?rest)"
    using beforeFirst_split [OF found] by simp
  then have start: "?start \<le> length preContent" by simp
  have rest: "afterLabel key preContent = ?rest" by (simp add: afterLabel_def)
  have raw: "substring preContent ?start
               (case (case indexOf preContent ''<br'' ?start of Some e \<Rightarrow> Some e
                      | None \<Rightarrow> indexOf preContent [CHR 0x0A] ?start)
                of Some e \<Rightarrow> e | None \<Rightarrow> length preContent)
             = fieldTextBreakFirst ?rest"
  proof (cases "sublist ''<br'' ?rest")
    case True
    then have e1: "indexOf preContent ''<br'' ?start = Some (?start + length (beforeFirst ''<br'' ?rest))"
      using indexOf_beforeFirst [OF start, of "''<br''"] by simp
    have "substring preContent ?start (?start + length (beforeFirst ''<br'' ?rest))
            = take (length (beforeFirst ''<br'' ?rest)) ?rest"
      using start length_beforeFirst_le [of "''<br''" ?rest] by (rule substring_from_start)
    then have "substring preContent ?start (?start + length (beforeFirst ''<br'' ?rest))
            = beforeFirst ''<br'' ?rest"
      by (simp only: beforeFirst_take)
    with e1 True show ?thesis by (simp add: fieldTextBreakFirst_def)
  next
    case False
    then have e1: "indexOf preContent ''<br'' ?start = None"
      using indexOf_beforeFirst [OF start, of "''<br''"] by simp
    show ?thesis
    proof (cases "sublist [CHR 0x0A] ?rest")
      case True
      then have e2: "indexOf preContent [CHR 0x0A] ?start
                       = Some (?start + length (beforeFirst [CHR 0x0A] ?rest))"
        using indexOf_beforeFirst [OF start, of "[CHR 0x0A]"] by simp
      have "substring preContent ?start (?start + length (beforeFirst [CHR 0x0A] ?rest))
              = take (length (beforeFirst [CHR 0x0A] ?rest)) ?rest"
        using start length_beforeFirst_le [of "[CHR 0x0A]" ?rest] by (rule substring_from_start)
      then have "substring preContent ?start (?start + length (beforeFirst [CHR 0x0A] ?rest))
              = beforeFirst [CHR 0x0A] ?rest"
        by (simp only: beforeFirst_take)
      with e1 e2 False show ?thesis by (simp add: fieldTextBreakFirst_def)
    next
      case nl: False
      then have e2: "indexOf preContent [CHR 0x0A] ?start = None"
        using indexOf_beforeFirst [OF start, of "[CHR 0x0A]"] by simp
      have "substring preContent ?start (length preContent) = ?rest"
        using start by (simp add: substring_def Let_def min_def max_def)
      moreover have "beforeFirst [CHR 0x0A] ?rest = ?rest" using nl by (rule beforeFirst_none)
      ultimately show ?thesis using e1 e2 False by (simp add: fieldTextBreakFirst_def)
    qed
  qed
  show ?thesis
    unfolding getValue_def Let_def cleanValue_def rest
    using idx raw by simp
qed

lemma getValue_absent: "\<not> sublist (key @ '':'') preContent \<Longrightarrow> getValue preContent key = []"
  using indexOf_beforeFirst [of 0 preContent "key @ '':''"]
  by (simp add: getValue_def Let_def)

text \<open>
  Claim C2, as stated, fails: when a newline comes before the next break tag, the
  value does not end at the newline. In the block below the value of
  \<open>Model Description\<close> runs over the newline up to the break tag.
\<close>

theorem getValue_newline_counterexample:
  "getValue ''Model Description: iPhone 12\<newline>Serial Number: F2LXX<br>'' ''Model Description''
     = ''iPhone 12\<newline>Serial Number: F2LXX''
   \<and> getValueFirstMarker ''Model Description: iPhone 12\<newline>Serial Number: F2LXX<br>''
         ''Model Description'' = ''iPhone 12''"
proof
  show "getValue ''Model Description: iPhone 12\<newline>Serial Number: F2LXX<br>'' ''Model Description''
     = ''iPhone 12\<newline>Serial Number: F2LXX''"
    by code_simp
  have "includes_str ''Model Description: iPhone 12\<newline>Serial Number: F2LXX<br>''
          (''Model Description'' @ '':'')"
    by code_simp
  then have "sublist (''Model Description'' @ '':'')
          ''Model Description: iPhone 12\<newline>Serial Number: F2LXX<br>''"
    by (simp only: includes_sublist)
  moreover have "cleanValue (fieldTextFirstMarker (afterLabel ''Model Description''
          ''Model Description: iPhone 12\<newline>Serial Number: F2LXX<br>'')) = ''iPhone 12''"
    by code_simp
  ultimately show "getValueFirstMarker ''Model Description: iPhone 12\<newline>Serial Number: F2LXX<br>''
         ''Model Description'' = ''iPhone 12''"
    by (simp only: getValueFirstMarker_def if_True)
qed

text \<open>
  Claim C2, amended. For every field label and block: when the label followed by a
  colon occurs in the block, the extracted value is the text from just after the colon
  of its first occurrence up to the next break tag \<open><br\<close>, if a break tag occurs
  anywhere later in the block; only when no break tag occurs later does it run up to
  the next newline character, or to the end of the block if there is none either. That
  text is then stripped of tags, has \<open>&nbsp;\<close> decoded and is trimmed. When the
  label does not occur, the value is empty.
\<close>

theorem getValue_break_tag_first:
  "getValue preContent key =
     (if sublist (key @ '':'') preContent
      then cleanValue (fieldTextBreakFirst (afterLabel key preContent)) else [])"
  by (simp add: getValue_found getValue_absent)

section \<open>The query matcher: tokens and the not-found list\<close>

text \<open>A token matches a device when it occurs in the IMEI or in the serial number
  of the device.\<close>

definition tokenMatches :: "string \<Rightarrow> Device \<Rightarrow> bool" where
  "tokenMatches q d = (sublist q (imei d) \<or> (\<exists>sn. serial d = Some sn \<and> sublist q sn))"

lemma matchesQuery_tokenMatches: "q \<noteq> [] \<Longrightarrow> matchesQuery q d \<longleftrightarrow> tokenMatches q d"
  by (cases "serial d") (auto simp: matchesQuery_def tokenMatches_def includes_sublist)

lemma set_foldl_setAdd: "set (foldl setAdd acc xs) = set acc \<union> set xs"
  by (induction xs arbitrary: acc) (auto simp: setAdd_def)

lemma distinct_foldl_setAdd: "distinct acc \<Longrightarrow> distinct (foldl setAdd acc xs)"
  by (induction xs arbitrary: acc) (auto simp: setAdd_def)

lemma set_uniqueQueriesOf:
  "set (uniqueQueriesOf bulkQuery) = {s \<in> set (map trim (splitSeps bulkQuery)). s \<noteq> []}"
  by (auto simp: uniqueQueriesOf_def arrayFromSet_def set_foldl_setAdd)

lemma distinct_uniqueQueriesOf: "distinct (uniqueQueriesOf bulkQuery)"
  by (simp add: uniqueQueriesOf_def arrayFromSet_def distinct_foldl_setAdd)

lemma uniqueQueriesOf_nonempty: "q \<in> set (uniqueQueriesOf bulkQuery) \<Longrightarrow> q \<noteq> []"
  by (simp add: set_uniqueQueriesOf)

lemma trim_empty_iff: "trim s = [] \<longleftrightarrow> (\<forall>c \<in> set s. isSpace c)"
proof
  assume "trim s = []"
  then have a: "dropWhile isSpace (rev (dropWhile isSpace s)) = []" by (simp add: trim_def)
  have "dropWhile isSpace s = []"
  proof (rule ccontr)
    assume ne: "dropWhile isSpace s \<noteq> []"
    then have h: "\<not> isSpace (hd (dropWhile isSpace s))" by (rule hd_dropWhile)
    from ne have "hd (dropWhile isSpace s) \<in> set (rev (dropWhile isSpace s))" by simp
    moreover from a have "\<forall>c \<in> set (rev (dropWhile isSpace s)). isSpace c"
      by (simp only: dropWhile_eq_Nil_conv)
    ultimately show False using h by blast
  qed
  then show "\<forall>c \<in> set s. isSpace c" by (simp only: dropWhile_eq_Nil_conv)
next
  assume "\<forall>c \<in> set s. isSpace c"
  then have "dropWhile isSpace s = []" by (simp only: dropWhile_eq_Nil_conv)
  then show "trim s = []" by (simp add: trim_def del: dropWhile_eq_Nil_conv)
qed

lemma splitSeps_pieces: "p \<in> set (splitSeps s) \<Longrightarrow> set p \<subseteq> set s"
proof (induction s arbitrary: p rule: splitSeps.induct)
  case (1 s)
  let ?tok = "takeWhile (\<lambda>c. \<not> isQuerySep c) s"
  let ?rest = "dropWhile (\<lambda>c. \<not> isQuerySep c) s"
  have tok: "set ?tok \<subseteq> set s" by (auto dest: set_takeWhileD)
  show ?case
  proof (cases "?rest = []")
    case True
    have "splitSeps s = [?tok]"
      by (subst splitSeps.simps) (simp only: True if_True refl)
    with "1.prems" have "p = ?tok" by simp
    with tok show ?thesis by simp
  next
    case False
    have "splitSeps s = ?tok # splitSeps (dropWhile isQuerySep ?rest)"
      by (subst splitSeps.simps) (simp only: False if_False)
    with "1.prems" have "p = ?tok \<or> p \<in> set (splitSeps (dropWhile isQuerySep ?rest))"
      by simp
    then show ?thesis
    proof
      assume "p = ?tok"
      with tok show ?thesis by simp
    next
      assume "p \<in> set (splitSeps (dropWhile isQuerySep ?rest))"
      from "1.IH" [OF False this] have "set p \<subseteq> set (dropWhile isQuerySep ?rest)" .
      also have "\<dots> \<subseteq> set ?rest" by (rule set_dropWhileD [THEN subsetI]) 
      also have "\<dots> \<subseteq> set s" by (rule set_dropWhileD [THEN subsetI])
      finally show ?thesis .
    qed
  qed
qed

lemma blank_query_no_tokens: "trim bulkQuery = [] \<Longrightarrow> uniqueQueriesOf bulkQuery = []"
proof -
  assume "trim bulkQuery = []"
  then have sp: "\<forall>c \<in> set bulkQuery. isSpace c" by (simp only: trim_empty_iff)
  have "\<And>p. p \<in> set (splitSeps bulkQuery) \<Longrightarrow> trim p = []"
  proof -
    fix p assume "p \<in> set (splitSeps bulkQuery)"
    then have "set p \<subseteq> set bulkQuery" by (rule splitSeps_pieces)
    with sp have "\<forall>c \<in> set p. isSpace c" by blast
    then show "trim p = []" by (simp only: trim_empty_iff)
  qed
  then have "set (uniqueQueriesOf bulkQuery) = {}" by (auto simp: set_uniqueQueriesOf)
  then show ?thesis by simp
qed

lemma searchStep_missing:
  "snd (foldl (searchStep devices) acc qs)
     = snd acc @ filter (\<lambda>q. filter (matchesQuery q) devices = []) qs"
  by (induction qs arbitrary: acc) (simp_all add: searchStep_def Let_def)

lemma notFound_filter:
  "notFoundQueries (handleBulkSearch devices bulkQuery st)
     = filter (\<lambda>q. filter (matchesQuery q) devices = []) (uniqueQueriesOf bulkQuery)"
proof (cases "trim bulkQuery = []")
  case True
  then show ?thesis by (simp add: handleBulkSearch_def blank_query_no_tokens)
next
  case False
  then show ?thesis by (simp add: handleBulkSearch_def Let_def searchStep_missing)
qed

text \<open>
  Claim C9. The not-found list holds, in query order, exactly the tokens (trimmed,
  non-empty, deduplicated pieces of the query) that occur in the IMEI or serial number
  of no device of the registry. A token that matches at least one device is never
  listed, whatever the other tokens match.
\<close>

theorem notFound_iff_no_match:
  "notFoundQueries (handleBulkSearch devices bulkQuery st)
     = filter (\<lambda>q. \<not> (\<exists>d \<in> set devices. tokenMatches q d)) (uniqueQueriesOf bulkQuery)
   \<and> (q \<in> set (notFoundQueries (handleBulkSearch devices bulkQuery st))
        \<longleftrightarrow> q \<in> set (uniqueQueriesOf bulkQuery) \<and> (\<forall>d \<in> set devices. \<not> tokenMatches q d))
   \<and> distinct (uniqueQueriesOf bulkQuery) \<and> [] \<notin> set (uniqueQueriesOf bulkQuery)"
proof -
  have "\<And>q. q \<in> set (uniqueQueriesOf bulkQuery) \<Longrightarrow>
          (filter (matchesQuery q) devices = []) = (\<not> (\<exists>d \<in> set devices. tokenMatches q d))"
    by (auto simp: filter_empty_conv matchesQuery_tokenMatches uniqueQueriesOf_nonempty)
  then have "filter (\<lambda>q. filter (matchesQuery q) devices = []) (uniqueQueriesOf bulkQuery)
      = filter (\<lambda>q. \<not> (\<exists>d \<in> set devices. tokenMatches q d)) (uniqueQueriesOf bulkQuery)"
    by (intro filter_cong) simp_all
  then have a: "notFoundQueries (handleBulkSearch devices bulkQuery st)
     = filter (\<lambda>q. \<not> (\<exists>d \<in> set devices. tokenMatches q d)) (uniqueQueriesOf bulkQuery)"
    by (simp only: notFound_filter)
  then have b: "q \<in> set (notFoundQueries (handleBulkSearch devices bulkQuery st))
        \<longleftrightarrow> q \<in> set (uniqueQueriesOf bulkQuery) \<and> (\<forall>d \<in> set devices. \<not> tokenMatches q d)"
    by auto
  have c: "[] \<notin> set (uniqueQueriesOf bulkQuery)" using uniqueQueriesOf_nonempty by blast
  from a b c distinct_uniqueQueriesOf show ?thesis by blast
qed


text \<open>The state of the component before the first search.\<close>

definition initialSearch :: SearchState where
  "initialSearch = \<lparr> searchResults = None, notFoundQueries = [], icloudAlertDevices = [] \<rparr>"

theorem notFound_iff_no_match_witness:
  "notFoundQueries (handleBulkSearch [sampleLocked, sampleTmobile] ''678,2222\<newline>678'' initialSearch)
     = [''2222'']
   \<and> uniqueQueriesOf ''678,2222\<newline>678'' = [''678'', ''2222'']
   \<and> \<not> tokenMatches ''2222'' sampleLocked \<and> \<not> tokenMatches ''2222'' sampleTmobile
   \<and> ''678'' \<notin> set (notFoundQueries
          (handleBulkSearch [sampleLocked, sampleTmobile] ''678,2222\<newline>678'' initialSearch))"
proof -
  let ?nf = "notFoundQueries (handleBulkSearch [sampleLocked, sampleTmobile] ''678,2222\<newline>678'' initialSearch)"
  have a: "?nf = [''2222'']" by code_simp
  have b: "uniqueQueriesOf ''678,2222\<newline>678'' = [''678'', ''2222'']" by code_simp
  note inst = notFound_iff_no_match
    [of "[sampleLocked, sampleTmobile]" "''678,2222\<newline>678''" initialSearch "''2222''"]
  from a have "''2222'' \<in> set ?nf" by simp
  with inst have "\<forall>d \<in> set [sampleLocked, sampleTmobile]. \<not> tokenMatches ''2222'' d" by blast
  then have c: "\<not> tokenMatches ''2222'' sampleLocked \<and> \<not> tokenMatches ''2222'' sampleTmobile"
    by simp
  from a have d: "''678'' \<notin> set ?nf" by simp
  from a b c d show ?thesis by (intro conjI) simp_all
qed

section \<open>The query matcher: the order of the results\<close>

lemma searchStep_found:
  "fst (foldl (searchStep devices) acc qs)
     = foldl (\<lambda>m d. mapSet m (id' d) d) (fst acc)
         (concat (map (\<lambda>q. filter (matchesQuery q) devices) qs))"
proof (induction qs arbitrary: acc)
  case Nil
  show ?case by simp
next
  case (Cons q qs)
  show ?case
  proof (cases "filter (matchesQuery q) devices = []")
    case True
    then have "searchStep devices acc q = (fst acc, snd acc @ [q])"
      by (simp add: searchStep_def)
    with Cons.IH [of "(fst acc, snd acc @ [q])"] True show ?thesis by simp
  next
    case False
    then have "searchStep devices acc q
        = (foldl (\<lambda>m d. mapSet m (id' d) d) (fst acc) (filter (matchesQuery q) devices), snd acc)"
      by (simp add: searchStep_def Let_def)
    with Cons.IH [of "(foldl (\<lambda>m d. mapSet m (id' d) d) (fst acc) (filter (matchesQuery q) devices), snd acc)"]
    show ?thesis by simp
  qed
qed

lemma keys_mapSet: "map fst (mapSet m k v) = setAdd (map fst m) k"
  by (induction m k v rule: mapSet.induct) (auto simp: setAdd_def)

lemma keys_foldl_mapSet:
  "map fst (foldl (\<lambda>m d. mapSet m (id' d) d) m ds) = foldl setAdd (map fst m) (map id' ds)"
  by (induction ds arbitrary: m) (simp_all add: keys_mapSet)

lemma mapSet_entries:
  "e \<in> set (mapSet m k v) \<Longrightarrow> e \<in> set m \<or> e = (k, v)"
  by (induction m k v rule: mapSet.induct) (auto split: if_splits)

lemma foldl_mapSet_entries:
  "e \<in> set (foldl (\<lambda>m d. mapSet m (id' d) d) m ds) \<Longrightarrow> e \<in> set m \<or> (\<exists>d \<in> set ds. e = (id' d, d))"
proof (induction ds arbitrary: m)
  case Nil
  then show ?case by simp
next
  case (Cons d ds)
  from Cons.prems have "e \<in> set (foldl (\<lambda>m d. mapSet m (id' d) d) (mapSet m (id' d) d) ds)" by simp
  from Cons.IH [OF this] show ?case by (auto dest: mapSet_entries)
qed

text \<open>A list without the repetitions of its elements: each element stays where it
  occurs first.\<close>

definition firstOccurrences :: "'a list \<Rightarrow> 'a list" where
  "firstOccurrences xs = rev (remdups (rev xs))"

lemma foldl_setAdd_firstOccurrences: "foldl setAdd [] xs = firstOccurrences xs"
proof (induction xs rule: rev_induct)
  case Nil
  show ?case by (simp add: firstOccurrences_def)
next
  case (snoc x xs)
  have "set (foldl setAdd [] xs) = set xs" by (simp add: set_foldl_setAdd)
  with snoc show ?case by (simp add: setAdd_def firstOccurrences_def)
qed

lemma remdups_map_inj: "inj_on f (set xs) \<Longrightarrow> remdups (map f xs) = map f (remdups xs)"
proof (induction xs)
  case Nil
  show ?case by simp
next
  case (Cons x xs)
  then have inj: "inj_on f (set xs)" and "f x \<in> f ` set xs \<longleftrightarrow> x \<in> set xs"
    by (auto simp: inj_on_def)
  with Cons.IH show ?case by simp
qed

lemma firstOccurrences_map_inj:
  "inj_on f (set xs) \<Longrightarrow> firstOccurrences (map f xs) = map f (firstOccurrences xs)"
  using remdups_map_inj [of f "rev xs"] by (simp add: firstOccurrences_def rev_map)

lemma set_firstOccurrences: "set (firstOccurrences xs) = set xs"
  by (simp add: firstOccurrences_def)

lemma distinct_firstOccurrences: "distinct (firstOccurrences xs)"
  by (simp add: firstOccurrences_def)

text \<open>The matches of all tokens, listed token by token in the order of the tokens,
  the matches of one token in the order of the registry.\<close>

definition allMatches :: "Device list \<Rightarrow> string list \<Rightarrow> Device list" where
  "allMatches devices qs = concat (map (\<lambda>q. filter (tokenMatches q) devices) qs)"

lemma allMatches_code:
  "[] \<notin> set qs \<Longrightarrow> concat (map (\<lambda>q. filter (matchesQuery q) devices) qs) = allMatches devices qs"
proof -
  assume ne: "[] \<notin> set qs"
  have "map (\<lambda>q. filter (matchesQuery q) devices) qs = map (\<lambda>q. filter (tokenMatches q) devices) qs"
  proof (rule map_cong [OF refl])
    fix q assume "q \<in> set qs"
    with ne have "q \<noteq> []" by auto
    then have "matchesQuery q = tokenMatches q"
      by (intro ext) (rule matchesQuery_tokenMatches)
    then show "filter (matchesQuery q) devices = filter (tokenMatches q) devices"
      by simp
  qed
  then show ?thesis by (simp only: allMatches_def)
qed

lemma set_allMatches:
  "set (allMatches devices qs) = {d \<in> set devices. \<exists>q \<in> set qs. tokenMatches q d}"
  by (auto simp: allMatches_def)

lemma search_results:
  assumes "trim bulkQuery \<noteq> []"
  shows "searchResults (handleBulkSearch devices bulkQuery st)
     = Some (map snd (foldl (\<lambda>m d. mapSet m (id' d) d) []
               (allMatches devices (uniqueQueriesOf bulkQuery))))"
proof -
  have "[] \<notin> set (uniqueQueriesOf bulkQuery)" using uniqueQueriesOf_nonempty by blast
  then have "concat (map (\<lambda>q. filter (matchesQuery q) devices) (uniqueQueriesOf bulkQuery))
      = allMatches devices (uniqueQueriesOf bulkQuery)"
    by (rule allMatches_code)
  with assms show ?thesis
    by (simp add: handleBulkSearch_def Let_def searchStep_found)
qed

lemma result_ids:
  "map id' (map snd (foldl (\<lambda>m d. mapSet m (id' d) d) [] ds)) = firstOccurrences (map id' ds)"
proof -
  let ?m = "foldl (\<lambda>m d. mapSet m (id' d) d) [] ds"
  have "\<And>e. e \<in> set ?m \<Longrightarrow> id' (snd e) = fst e"
    by (auto dest: foldl_mapSet_entries)
  then have "map (\<lambda>e. id' (snd e)) ?m = map fst ?m" by (intro map_cong) simp_all
  then have "map id' (map snd ?m) = map fst ?m" by (simp add: comp_def)
  also have "\<dots> = foldl setAdd [] (map id' ds)" using keys_foldl_mapSet [of "[]" ds] by simp
  also have "\<dots> = firstOccurrences (map id' ds)" by (rule foldl_setAdd_firstOccurrences)
  finally show ?thesis .
qed

lemma result_values:
  assumes "inj_on id' (set ds)"
  shows "map snd (foldl (\<lambda>m d. mapSet m (id' d) d) [] ds) = firstOccurrences ds"
proof -
  let ?rs = "map snd (foldl (\<lambda>m d. mapSet m (id' d) d) [] ds)"
  have sub: "set ?rs \<subseteq> set ds" by (auto dest: foldl_mapSet_entries)
  have "map id' ?rs = firstOccurrences (map id' ds)" by (rule result_ids)
  also have "\<dots> = map id' (firstOccurrences ds)" using assms by (rule firstOccurrences_map_inj)
  finally have eq: "map id' ?rs = map id' (firstOccurrences ds)" .
  from sub assms have "inj_on id' (set ?rs \<union> set (firstOccurrences ds))"
    by (simp add: set_firstOccurrences Un_absorb1)
  from inj_on_map_eq_map [OF this] eq show ?thesis by simp
qed


lemma map_of_mapSet: "map_of (mapSet m k v) = (map_of m)(k \<mapsto> v)"
  by (induction m k v rule: mapSet.induct) (auto simp: fun_eq_iff)

lemma map_of_foldl_mapSet:
  "map_of (foldl (\<lambda>m d. mapSet m (id' d) d) m ds) k
     = (if \<exists>d \<in> set ds. id' d = k then Some (last (filter (\<lambda>d. id' d = k) ds)) else map_of m k)"
proof (induction ds arbitrary: m)
  case Nil
  show ?case by simp
next
  case (Cons d ds)
  show ?case
  proof (cases "\<exists>x \<in> set ds. id' x = k")
    case True
    then have "filter (\<lambda>d. id' d = k) ds \<noteq> []" by (simp add: filter_empty_conv)
    with True Cons.IH [of "mapSet m (id' d) d"] show ?thesis by simp
  next
    case False
    then have "filter (\<lambda>d. id' d = k) ds = []" by (simp add: filter_empty_conv)
    with False Cons.IH [of "mapSet m (id' d) d"] show ?thesis
      by (simp add: map_of_mapSet)
  qed
qed

lemma values_by_keys:
  "distinct (map fst m) \<Longrightarrow> map snd m = map (\<lambda>k. the (map_of m k)) (map fst m)"
proof (induction m)
  case Nil
  show ?case by simp
next
  case (Cons e m)
  then have d: "distinct (map fst m)" and n: "fst e \<notin> fst ` set m" by simp_all
  have "map (\<lambda>k. the (map_of (e # m) k)) (map fst m) = map (\<lambda>k. the (map_of m k)) (map fst m)"
  proof (rule map_cong [OF refl])
    fix k assume "k \<in> set (map fst m)"
    then have "k \<in> fst ` set m" by simp
    with n have "k \<noteq> fst e" by blast
    then show "the (map_of (e # m) k) = the (map_of m k)" by (cases e) simp
  qed
  with Cons.IH [OF d] show ?case by (cases e) simp
qed

lemma result_last_match:
  "map snd (foldl (\<lambda>m d. mapSet m (id' d) d) [] ds)
     = map (\<lambda>k. last (filter (\<lambda>d. id' d = k) ds)) (firstOccurrences (map id' ds))"
proof -
  let ?m = "foldl (\<lambda>m d. mapSet m (id' d) d) [] ds"
  have keys: "map fst ?m = firstOccurrences (map id' ds)"
    using keys_foldl_mapSet [of "[]" ds] by (simp add: foldl_setAdd_firstOccurrences)
  then have "distinct (map fst ?m)" by (simp only: distinct_firstOccurrences)
  then have "map snd ?m = map (\<lambda>k. the (map_of ?m k)) (map fst ?m)" by (rule values_by_keys)
  also have "\<dots> = map (\<lambda>k. the (map_of ?m k)) (firstOccurrences (map id' ds))"
    by (simp only: keys)
  also have "\<dots> = map (\<lambda>k. last (filter (\<lambda>d. id' d = k) ds)) (firstOccurrences (map id' ds))"
  proof (rule map_cong [OF refl])
    fix k assume "k \<in> set (firstOccurrences (map id' ds))"
    then have "\<exists>d \<in> set ds. id' d = k" by (auto simp: set_firstOccurrences)
    then show "the (map_of ?m k) = last (filter (\<lambda>d. id' d = k) ds)"
      by (simp only: map_of_foldl_mapSet if_True option.sel)
  qed
  finally show ?thesis .
qed


subsection \<open>The ids that the extractor assigns\<close>

text \<open>The number that a string of decimal digits denotes.\<close>

definition digitValue :: "char \<Rightarrow> nat" where
  "digitValue c = length (takeWhile (\<lambda>d. d \<noteq> c) digitChars)"

definition decimalValue :: "string \<Rightarrow> nat" where
  "decimalValue s = foldl (\<lambda>a c. 10 * a + digitValue c) 0 s"

text \<open>The segment index that an id ends with, after the fifteen digits of the IMEI
  and the hyphen.\<close>

definition idIndex :: "Device \<Rightarrow> nat" where
  "idIndex d = decimalValue (drop 16 (id' d))"

lemma digitValue_nth: "n < 10 \<Longrightarrow> digitValue (digitChars ! n) = n"
proof -
  assume "n < 10"
  then have "n \<in> set [0..<10]" by simp
  moreover have "list_all (\<lambda>n. digitValue (digitChars ! n) = n) [0..<10]" by code_simp
  ultimately show ?thesis unfolding list_all_iff by blast
qed

lemma decimalValue_snoc: "decimalValue (s @ [c]) = 10 * decimalValue s + digitValue c"
  by (simp add: decimalValue_def)

lemma decimalValue_showNat: "decimalValue (showNat n) = n"
proof (induction n rule: showNat.induct)
  case (1 n)
  show ?case
  proof (cases "n < 10")
    case True
    then have "showNat n = [digitChars ! n]" by (subst showNat.simps) simp
    with True show ?thesis by (simp add: decimalValue_def digitValue_nth)
  next
    case False
    then have "showNat n = showNat (n div 10) @ [digitChars ! (n mod 10)]"
      by (subst showNat.simps) simp
    with "1.IH" [OF False] show ?thesis
      by (simp add: decimalValue_snoc digitValue_nth)
  qed
qed

lemma buildDevice_id: "id' (buildDevice i v pc) = v @ ''-'' @ showNat i"
  by (simp add: buildDevice_def Let_def)

lemma parseChunk_idIndex: "parseChunk i chunk = Some d \<Longrightarrow> idIndex d = i"
proof -
  assume a: "parseChunk i chunk = Some d"
  then obtain v pc where v: "imeiMatch chunk = Some v" and d: "d = buildDevice i v pc"
    by (auto simp: parseChunk_def split: option.splits)
  from imeiMatch_SomeD [OF v] have "length v = 15" by blast
  then have "drop 16 (v @ ''-'' @ showNat i) = showNat i" by simp
  with d show ?thesis by (simp add: idIndex_def buildDevice_id decimalValue_showNat)
qed

lemma parseChunks_idIndex_ge: "d \<in> set (parseChunks i chunks) \<Longrightarrow> i \<le> idIndex d"
proof (induction chunks arbitrary: i)
  case Nil
  then show ?case by simp
next
  case (Cons chunk chunks)
  show ?case
  proof (cases "parseChunk i chunk")
    case None
    with Cons.prems have "d \<in> set (parseChunks (Suc i) chunks)" by simp
    from Cons.IH [OF this] show ?thesis by simp
  next
    case (Some d')
    with Cons.prems have "d = d' \<or> d \<in> set (parseChunks (Suc i) chunks)" by simp
    then show ?thesis
    proof
      assume "d = d'"
      with Some show ?thesis by (simp add: parseChunk_idIndex)
    next
      assume "d \<in> set (parseChunks (Suc i) chunks)"
      from Cons.IH [OF this] show ?thesis by simp
    qed
  qed
qed

lemma distinct_idIndex: "distinct (map idIndex (parseChunks i chunks))"
proof (induction chunks arbitrary: i)
  case Nil
  show ?case by simp
next
  case (Cons chunk chunks)
  show ?case
  proof (cases "parseChunk i chunk")
    case None
    with Cons.IH [of "Suc i"] show ?thesis by simp
  next
    case (Some d)
    then have "idIndex d = i" by (rule parseChunk_idIndex)
    moreover have "i \<notin> idIndex ` set (parseChunks (Suc i) chunks)"
    proof
      assume "i \<in> idIndex ` set (parseChunks (Suc i) chunks)"
      then obtain x where "x \<in> set (parseChunks (Suc i) chunks)" "idIndex x = i" by auto
      with parseChunks_idIndex_ge [of x "Suc i" chunks] show False by simp
    qed
    ultimately show ?thesis using Some Cons.IH [of "Suc i"] by simp
  qed
qed

lemma extractor_ids_distinct: "distinct (map id' (parseSickwHtml html))"
proof -
  let ?ds = "parseSickwHtml html"
  have "distinct (map idIndex ?ds)" unfolding parseSickwHtml_def by (rule distinct_idIndex)
  then have dd: "distinct ?ds" and inj: "inj_on idIndex (set ?ds)" by (simp_all add: distinct_map)
  have "inj_on id' (set ?ds)"
  proof (rule inj_onI)
    fix x y assume "x \<in> set ?ds" "y \<in> set ?ds" "id' x = id' y"
    then have "idIndex x = idIndex y" by (simp add: idIndex_def)
    with inj \<open>x \<in> set ?ds\<close> \<open>y \<in> set ?ds\<close> show "x = y" by (simp add: inj_on_def)
  qed
  with dd show ?thesis by (simp add: distinct_map)
qed

subsection \<open>The order of first match\<close>

text \<open>The words of the specification: the matched devices in the order of the
  registry.\<close>

definition resultsRegistryOrder :: "Device list \<Rightarrow> string list \<Rightarrow> Device list" where
  "resultsRegistryOrder devices qs = filter (\<lambda>d. \<exists>q \<in> set qs. tokenMatches q d) devices"

lemma sample_token_matches:
  "tokenMatches ''670'' sampleTmobile" "\<not> tokenMatches ''670'' sampleLocked"
  "tokenMatches ''F2L'' sampleLocked" "\<not> tokenMatches ''F2L'' sampleTmobile"
proof -
  have "matchesQuery ''670'' sampleTmobile" "\<not> matchesQuery ''670'' sampleLocked"
    "matchesQuery ''F2L'' sampleLocked" "\<not> matchesQuery ''F2L'' sampleTmobile"
    by code_simp+
  then show "tokenMatches ''670'' sampleTmobile" "\<not> tokenMatches ''670'' sampleLocked"
    "tokenMatches ''F2L'' sampleLocked" "\<not> tokenMatches ''F2L'' sampleTmobile"
    by (simp_all add: matchesQuery_tokenMatches)
qed

text \<open>
  Claim C1, as stated, fails: the results come in the order in which the tokens
  matched them. With the registry \<open>[sampleLocked, sampleTmobile]\<close> and the query
  \<open>670 F2L\<close>, the first token matches the second device and the second token the
  first device; the result lists the second device of the registry first.
\<close>

theorem bulk_search_order_counterexample:
  "searchResults (handleBulkSearch [sampleLocked, sampleTmobile] ''670 F2L'' initialSearch)
     = Some [sampleTmobile, sampleLocked]
   \<and> resultsRegistryOrder [sampleLocked, sampleTmobile] (uniqueQueriesOf ''670 F2L'')
     = [sampleLocked, sampleTmobile]
   \<and> sampleLocked \<noteq> sampleTmobile"
proof (intro conjI)
  show "searchResults (handleBulkSearch [sampleLocked, sampleTmobile] ''670 F2L'' initialSearch)
     = Some [sampleTmobile, sampleLocked]"
    by code_simp
  have "uniqueQueriesOf ''670 F2L'' = [''670'', ''F2L'']" by code_simp
  then show "resultsRegistryOrder [sampleLocked, sampleTmobile] (uniqueQueriesOf ''670 F2L'')
     = [sampleLocked, sampleTmobile]"
    by (simp add: resultsRegistryOrder_def sample_token_matches)
  show "sampleLocked \<noteq> sampleTmobile"
    by (simp add: sampleLocked_def sampleTmobile_def)
qed

text \<open>
  Claim C1, amended. For every registry and every query string that is not blank, the
  matched result list is the union of all per-token matches deduplicated by device id,
  and its order is the order of first match, not the order of the registry: the tokens
  are taken in query order, the matches of one token in registry order, and a device id
  that an earlier token has matched keeps its position. The ids of the result are the
  first occurrences of the ids of all matches listed in that order and are pairwise
  different, and each id is represented by the device that matched last under that id.
  When the ids of the registry are pairwise different, as the ids that the extractor
  assigns always are, the result is the list of first occurrences of the matched devices
  themselves and holds exactly the devices that some token matches.
\<close>

theorem bulk_search_first_match_order:
  "(trim bulkQuery \<noteq> [] \<longrightarrow>
     (\<exists>results. searchResults (handleBulkSearch devices bulkQuery st) = Some results
        \<and> map id' results
            = firstOccurrences (map id' (allMatches devices (uniqueQueriesOf bulkQuery)))
        \<and> distinct (map id' results)
        \<and> results
            = map (\<lambda>k. last (filter (\<lambda>d. id' d = k)
                                (allMatches devices (uniqueQueriesOf bulkQuery))))
                (firstOccurrences (map id' (allMatches devices (uniqueQueriesOf bulkQuery))))
        \<and> (distinct (map id' devices) \<longrightarrow>
              results = firstOccurrences (allMatches devices (uniqueQueriesOf bulkQuery))
              \<and> set results
                  = {d \<in> set devices. \<exists>q \<in> set (uniqueQueriesOf bulkQuery). tokenMatches q d})))
   \<and> distinct (map id' (parseSickwHtml html))"
proof
  show "trim bulkQuery \<noteq> [] \<longrightarrow>
     (\<exists>results. searchResults (handleBulkSearch devices bulkQuery st) = Some results
        \<and> map id' results
            = firstOccurrences (map id' (allMatches devices (uniqueQueriesOf bulkQuery)))
        \<and> distinct (map id' results)
        \<and> results
            = map (\<lambda>k. last (filter (\<lambda>d. id' d = k)
                                (allMatches devices (uniqueQueriesOf bulkQuery))))
                (firstOccurrences (map id' (allMatches devices (uniqueQueriesOf bulkQuery))))
        \<and> (distinct (map id' devices) \<longrightarrow>
              results = firstOccurrences (allMatches devices (uniqueQueriesOf bulkQuery))
              \<and> set results
                  = {d \<in> set devices. \<exists>q \<in> set (uniqueQueriesOf bulkQuery). tokenMatches q d}))"
  proof
    assume nb: "trim bulkQuery \<noteq> []"
    let ?ms = "allMatches devices (uniqueQueriesOf bulkQuery)"
    let ?rs = "map snd (foldl (\<lambda>m d. mapSet m (id' d) d) [] ?ms)"
    have res: "searchResults (handleBulkSearch devices bulkQuery st) = Some ?rs"
      using nb by (rule search_results)
    have ids: "map id' ?rs = firstOccurrences (map id' ?ms)" by (rule result_ids)
    then have dis: "distinct (map id' ?rs)" by (simp only: distinct_firstOccurrences)
    have lst: "?rs = map (\<lambda>k. last (filter (\<lambda>d. id' d = k) ?ms)) (firstOccurrences (map id' ?ms))"
      by (rule result_last_match)
    have vals: "distinct (map id' devices) \<longrightarrow>
          ?rs = firstOccurrences ?ms
          \<and> set ?rs = {d \<in> set devices. \<exists>q \<in> set (uniqueQueriesOf bulkQuery). tokenMatches q d}"
    proof
      assume "distinct (map id' devices)"
      then have "inj_on id' (set devices)" by (simp add: distinct_map)
      moreover have "set ?ms \<subseteq> set devices" by (auto simp: set_allMatches)
      ultimately have "inj_on id' (set ?ms)" by (rule inj_on_subset)
      then have eq: "?rs = firstOccurrences ?ms" by (rule result_values)
      then have "set ?rs = set ?ms" by (simp only: set_firstOccurrences)
      with eq show "?rs = firstOccurrences ?ms
          \<and> set ?rs = {d \<in> set devices. \<exists>q \<in> set (uniqueQueriesOf bulkQuery). tokenMatches q d}"
        by (simp only: set_allMatches simp_thms)
    qed
    from res ids dis lst vals
    show "\<exists>results. searchResults (handleBulkSearch devices bulkQuery st) = Some results
        \<and> map id' results = firstOccurrences (map id' ?ms)
        \<and> distinct (map id' results)
        \<and> results = map (\<lambda>k. last (filter (\<lambda>d. id' d = k) ?ms)) (firstOccurrences (map id' ?ms))
        \<and> (distinct (map id' devices) \<longrightarrow>
              results = firstOccurrences ?ms
              \<and> set results
                  = {d \<in> set devices. \<exists>q \<in> set (uniqueQueriesOf bulkQuery). tokenMatches q d})"
      by (intro exI [of _ ?rs] conjI)
  qed
  show "distinct (map id' (parseSickwHtml html))" by (rule extractor_ids_distinct)
qed

theorem bulk_search_first_match_order_witness:
  "trim ''670 678'' \<noteq> [] \<and> distinct (map id' [sampleLocked, sampleTmobile])
   \<and> uniqueQueriesOf ''670 678'' = [''670'', ''678'']
   \<and> allMatches [sampleLocked, sampleTmobile] [''670'', ''678'']
       = [sampleTmobile, sampleLocked, sampleTmobile]
   \<and> searchResults (handleBulkSearch [sampleLocked, sampleTmobile] ''670 678'' initialSearch)
       = Some [sampleTmobile, sampleLocked]"
proof -
  have a: "trim ''670 678'' \<noteq> []" by code_simp
  have b: "distinct (map id' [sampleLocked, sampleTmobile])"
    by (simp add: sampleLocked_def sampleTmobile_def)
  have u: "uniqueQueriesOf ''670 678'' = [''670'', ''678'']" by code_simp
  have cm: "concat (map (\<lambda>q. filter (matchesQuery q) [sampleLocked, sampleTmobile]) [''670'', ''678''])
          = [sampleTmobile, sampleLocked, sampleTmobile]"
    by code_simp
  have "[] \<notin> set [''670'', ''678'']" by simp
  from allMatches_code [OF this, of "[sampleLocked, sampleTmobile]"] cm
  have m: "allMatches [sampleLocked, sampleTmobile] [''670'', ''678'']
       = [sampleTmobile, sampleLocked, sampleTmobile]"
    by simp
  have ne: "sampleLocked \<noteq> sampleTmobile" by (simp add: sampleLocked_def sampleTmobile_def)
  then have f: "firstOccurrences [sampleTmobile, sampleLocked, sampleTmobile]
       = [sampleTmobile, sampleLocked]"
    by (auto simp: firstOccurrences_def)
  from bulk_search_first_match_order
         [of "''670 678''" "[sampleLocked, sampleTmobile]" initialSearch] a b
  obtain results where
    "searchResults (handleBulkSearch [sampleLocked, sampleTmobile] ''670 678'' initialSearch)
       = Some results"
    "results = firstOccurrences (allMatches [sampleLocked, sampleTmobile] (uniqueQueriesOf ''670 678''))"
    by blast
  with u m f have c: "searchResults (handleBulkSearch [sampleLocked, sampleTmobile] ''670 678'' initialSearch)
       = Some [sampleTmobile, sampleLocked]"
    by simp
  from a b u m c show ?thesis by (intro conjI)
qed

section \<open>The export text\<close>

text \<open>The three lines of one device: cleaned model description, IMEI, separator.\<close>

definition deviceBlock :: "Device \<Rightarrow> string" where
  "deviceBlock d = cleanModel (modelDesc d) @ ''\<newline>'' @ imei d @ ''\<newline>'' @ separator"

text \<open>A layout of the export text: for each non-empty bucket, its header, a blank
  line and the blocks of its devices joined by \<open>gap\<close>; the sections joined by a blank
  line.\<close>

definition exportLayout :: "string \<Rightarrow> Device list \<Rightarrow> string" where
  "exportLayout gap devices =
     joinStr ''\<newline>\<newline>''
       (map (\<lambda>hb. fst hb @ ''\<newline>\<newline>'' @ joinStr gap (map deviceBlock (snd hb)))
          (filter (\<lambda>hb. snd hb \<noteq> []) (zip bucketHeaders (buckets devices))))"

lemma formatList_blocks: "formatList devs = joinStr ''\<newline>'' (map deviceBlock devs)"
  by (simp add: formatList_def deviceBlock_def [abs_def])

lemma if_append_acc: "(if c then out @ s else out) = out @ (if c then s else [])"
  by simp

text \<open>One section as the source appends it: nothing for an empty bucket.\<close>

definition sectionText :: "string \<times> Device list \<Rightarrow> string" where
  "sectionText hb =
     (if snd hb \<noteq> [] then fst hb @ ''\<newline>\<newline>'' @ formatList (snd hb) @ ''\<newline>\<newline>'' else [])"

lemma appended_section:
  "(if 0 < length b then hn @ formatList b @ ''\<newline>\<newline>'' else []) = sectionText (h, b)"
  if "hn = h @ ''\<newline>\<newline>''"
  using that by (simp add: sectionText_def)

lemma header_literals:
  "''*ICLOUD*\<newline>\<newline>'' = bucketHeaders ! 0 @ ''\<newline>\<newline>''"
  "''locked and non active tmoblie with network phone are like this with the device detetils,\<newline>\<newline>*LOCKED N NON ACTIVE T-MOBILE*\<newline>\<newline>''
     = bucketHeaders ! 1 @ ''\<newline>\<newline>''"
  "''*LOCKED N ACTIVE T-MOBILE*\<newline>\<newline>'' = bucketHeaders ! 2 @ ''\<newline>\<newline>''"
  "''locked and non active other network phone are like this with the device detetils,\<newline>\<newline>*LOCKED N NON ACTIVE*\<newline>\<newline>''
     = bucketHeaders ! 3 @ ''\<newline>\<newline>''"
  "''*LOCKED N ACTIVE*\<newline>\<newline>'' = bucketHeaders ! 4 @ ''\<newline>\<newline>''"
  "''unlocked and non active phone are like this with the device detetils,\<newline>\<newline>UNLOCKED N NON ACTIVE\<newline>\<newline>''
     = bucketHeaders ! 5 @ ''\<newline>\<newline>''"
  "''unlocked and active phone like this device detetils,\<newline>\<newline>UNLOCKED N ACTIVE\<newline>\<newline>''
     = bucketHeaders ! 6 @ ''\<newline>\<newline>''"
  by (simp_all add: bucketHeaders_def)

lemma generateExportText_sections:
  "generateExportText devices
     = trim (concat (map sectionText (zip bucketHeaders (buckets devices))))"
proof -
  have lhs: "generateExportText devices =
     trim (sectionText (bucketHeaders ! 0, filter isIcloud devices)
         @ sectionText (bucketHeaders ! 1, filter isTmobileNonActive devices)
         @ sectionText (bucketHeaders ! 2, filter isTmobileActive devices)
         @ sectionText (bucketHeaders ! 3, filter isLockedOtherNonActive devices)
         @ sectionText (bucketHeaders ! 4, filter isLockedOtherActive devices)
         @ sectionText (bucketHeaders ! 5, filter isUnlockedNonActive devices)
         @ sectionText (bucketHeaders ! 6, filter isUnlockedActive devices))"
    apply (simp only: generateExportText_def if_append_acc)
    apply (simp only: Let_def)
    apply (simp only: appended_section [OF header_literals(1)] appended_section [OF header_literals(2)]
       appended_section [OF header_literals(3)] appended_section [OF header_literals(4)]
       appended_section [OF header_literals(5)] appended_section [OF header_literals(6)]
       appended_section [OF header_literals(7)] append_Nil append_assoc
        isIcloud_def [abs_def] isTmobileNonActive_def [abs_def] isTmobileActive_def [abs_def]
        isLockedOtherNonActive_def [abs_def] isLockedOtherActive_def [abs_def]
        isUnlockedNonActive_def [abs_def] isUnlockedActive_def [abs_def])
    done
  have len: "length bucketHeaders = 7" by (simp add: bucketHeaders_def)
  have rhs: "zip bucketHeaders (buckets devices) =
      [(bucketHeaders ! 0, filter isIcloud devices),
       (bucketHeaders ! 1, filter isTmobileNonActive devices),
       (bucketHeaders ! 2, filter isTmobileActive devices),
       (bucketHeaders ! 3, filter isLockedOtherNonActive devices),
       (bucketHeaders ! 4, filter isLockedOtherActive devices),
       (bucketHeaders ! 5, filter isUnlockedNonActive devices),
       (bucketHeaders ! 6, filter isUnlockedActive devices)]"
    by (simp add: bucketHeaders_def buckets_def bucketFilters_def)
  show ?thesis by (simp only: lhs rhs list.map concat.simps append_Nil2)
qed

lemma concat_map_if:
  "concat (map (\<lambda>x. if P x then f x else []) xs) = concat (map f (filter P xs))"
  by (induction xs) simp_all

lemma concat_map_append_gap:
  "xs \<noteq> [] \<Longrightarrow> concat (map (\<lambda>x. r x @ g) xs) = joinStr g (map r xs) @ g"
proof (induction xs)
  case Nil
  then show ?case by simp
next
  case (Cons x xs)
  then show ?case by (cases xs) simp_all
qed

lemma trim_append_spaces:
  assumes "\<forall>c \<in> set ws. isSpace c" and "s \<noteq> []" and "\<not> isSpace (hd s)" and "\<not> isSpace (last s)"
  shows "trim (s @ ws) = s"
proof -
  from assms(2,3) have front: "dropWhile isSpace (s @ ws) = s @ ws" by (cases s) simp_all
  have "dropWhile isSpace (rev ws @ rev s) = dropWhile isSpace (rev s)"
    by (rule dropWhile_append2) (use assms(1) in simp)
  also from assms(2,4) have "\<dots> = rev s" by (cases "rev s") (auto simp: last_rev [symmetric] hd_rev)
  finally show ?thesis using front by (simp add: trim_def)
qed

lemma joinStr_hd:
  "xs \<noteq> [] \<Longrightarrow> hd xs \<noteq> [] \<Longrightarrow> joinStr g xs \<noteq> [] \<and> hd (joinStr g xs) = hd (hd xs)"
  by (induction g xs rule: joinStr.induct) simp_all

lemma joinStr_nonempty_last: "xs \<noteq> [] \<Longrightarrow> last xs \<noteq> [] \<Longrightarrow> joinStr g xs \<noteq> []"
  by (induction g xs rule: joinStr.induct) simp_all

lemma joinStr_last:
  "xs \<noteq> [] \<Longrightarrow> last xs \<noteq> [] \<Longrightarrow> last (joinStr g xs) = last (last xs)"
proof (induction g xs rule: joinStr.induct)
  case (1 sep)
  then show ?case by simp
next
  case (2 sep x)
  then show ?case by simp
next
  case (3 sep x y ys)
  then have l: "last (y # ys) \<noteq> []" by simp
  then have "joinStr sep (y # ys) \<noteq> []" by (intro joinStr_nonempty_last) simp_all
  then have "last (joinStr sep (x # y # ys)) = last (joinStr sep (y # ys))" by simp
  also have "\<dots> = last (last (y # ys))" using l by (intro "3.IH") simp_all
  finally show ?case by simp
qed

lemma last_separator: "last separator = CHR ''=''" and separator_nonempty: "separator \<noteq> []"
  by (simp_all add: separator_def)

lemma deviceBlock_last: "deviceBlock d \<noteq> [] \<and> last (deviceBlock d) = CHR ''=''"
  using separator_nonempty by (simp add: deviceBlock_def last_separator)

lemma formatList_last: "devs \<noteq> [] \<Longrightarrow> last (formatList devs) = CHR ''=''"
proof -
  assume ne: "devs \<noteq> []"
  then have "last (map deviceBlock devs) = deviceBlock (last devs)" by (simp add: last_map)
  with ne deviceBlock_last [of "last devs"] show ?thesis
    using joinStr_last [of "map deviceBlock devs" "''\<newline>''"]
    by (simp add: formatList_blocks)
qed

lemma formatList_nonempty: "devs \<noteq> [] \<Longrightarrow> formatList devs \<noteq> []"
proof -
  assume ne: "devs \<noteq> []"
  then have "hd (map deviceBlock devs) = deviceBlock (hd devs)" by (simp add: hd_map)
  with ne deviceBlock_last [of "hd devs"] show ?thesis
    using joinStr_hd [of "map deviceBlock devs" "''\<newline>''"]
    by (simp add: formatList_blocks)
qed

lemma header_starts:
  "h \<in> set bucketHeaders \<Longrightarrow> h \<noteq> [] \<and> \<not> isSpace (hd h)"
  by (auto simp: bucketHeaders_def isSpace_def)


lemma rendered_section_ends:
  assumes "hb \<in> set (zip bucketHeaders bs)" and "snd hb \<noteq> []"
  shows "fst hb @ ''\<newline>\<newline>'' @ formatList (snd hb) \<noteq> []"
    and "\<not> isSpace (hd (fst hb @ ''\<newline>\<newline>'' @ formatList (snd hb)))"
    and "last (fst hb @ ''\<newline>\<newline>'' @ formatList (snd hb)) = CHR ''=''"
proof -
  from assms(1) have "(fst hb, snd hb) \<in> set (zip bucketHeaders bs)" by simp
  then have "fst hb \<in> set bucketHeaders" by (rule set_zip_leftD)
  then have h: "fst hb \<noteq> []" "\<not> isSpace (hd (fst hb))" by (simp_all add: header_starts)
  from h(1) show "fst hb @ ''\<newline>\<newline>'' @ formatList (snd hb) \<noteq> []" by simp
  from h show "\<not> isSpace (hd (fst hb @ ''\<newline>\<newline>'' @ formatList (snd hb)))" by simp
  from assms(2) have "formatList (snd hb) \<noteq> []" by (rule formatList_nonempty)
  with formatList_last [OF assms(2)]
  show "last (fst hb @ ''\<newline>\<newline>'' @ formatList (snd hb)) = CHR ''=''" by simp
qed

lemma generateExportText_layout: "generateExportText devices = exportLayout ''\<newline>'' devices"
proof -
  let ?nn = "''\<newline>\<newline>''"
  let ?r = "\<lambda>hb. fst hb @ ?nn @ formatList (snd hb)"
  let ?S = "filter (\<lambda>hb. snd hb \<noteq> []) (zip bucketHeaders (buckets devices))"
  have st: "sectionText = (\<lambda>hb. if snd hb \<noteq> [] then ?r hb @ ?nn else [])"
    by (intro ext) (simp add: sectionText_def)
  have cat: "concat (map sectionText (zip bucketHeaders (buckets devices)))
               = concat (map (\<lambda>hb. ?r hb @ ?nn) ?S)"
    unfolding st by (rule concat_map_if)
  have lay: "exportLayout ''\<newline>'' devices = joinStr ?nn (map ?r ?S)"
    by (simp add: exportLayout_def formatList_blocks)
  show ?thesis
  proof (cases "?S = []")
    case True
    have c0: "concat (map sectionText (zip bucketHeaders (buckets devices))) = []"
      unfolding cat True by simp
    have l0: "exportLayout ''\<newline>'' devices = []"
      unfolding lay True by simp
    show ?thesis
      unfolding generateExportText_sections c0 l0 by (simp add: trim_def)
  next
    case False
    let ?J = "joinStr ?nn (map ?r ?S)"
    from False have cat2: "concat (map (\<lambda>hb. ?r hb @ ?nn) ?S) = ?J @ ?nn"
      by (rule concat_map_append_gap)
    have mem: "\<And>x. x \<in> set ?S \<Longrightarrow> x \<in> set (zip bucketHeaders (buckets devices)) \<and> snd x \<noteq> []"
      by simp
    from False have hdS: "hd ?S \<in> set ?S" by (rule hd_in_set)
    from False have lastS: "last ?S \<in> set ?S" by (rule last_in_set)
    from mem [OF hdS]
    have hd_in: "hd ?S \<in> set (zip bucketHeaders (buckets devices))" "snd (hd ?S) \<noteq> []"
      by blast+
    from mem [OF lastS]
    have last_in: "last ?S \<in> set (zip bucketHeaders (buckets devices))" "snd (last ?S) \<noteq> []"
      by blast+
    have mapne: "map ?r ?S \<noteq> []" using False by simp
    have hdm: "hd (map ?r ?S) = ?r (hd ?S)" using False by (simp add: hd_map)
    have lastm: "last (map ?r ?S) = ?r (last ?S)" using False by (simp add: last_map)
    from rendered_section_ends [OF hd_in] hdm
    have "hd (map ?r ?S) \<noteq> []" and hsp: "\<not> isSpace (hd (hd (map ?r ?S)))" by simp_all
    with joinStr_hd [OF mapne, of ?nn] have Jne: "?J \<noteq> []" and Jhd: "\<not> isSpace (hd ?J)"
      by simp_all
    from rendered_section_ends [OF last_in] lastm
    have lne: "last (map ?r ?S) \<noteq> []" and "last (last (map ?r ?S)) = CHR ''=''" by simp_all
    with joinStr_last [OF mapne lne, of ?nn] have "last ?J = CHR ''=''" by simp
    then have Jlast: "\<not> isSpace (last ?J)" by (simp add: isSpace_def)
    have "\<forall>c \<in> set ?nn. isSpace c" by (simp add: isSpace_def)
    from trim_append_spaces [OF this Jne Jhd Jlast] have "trim (?J @ ?nn) = ?J" .
    with cat cat2 lay show ?thesis by (simp only: generateExportText_sections)
  qed
qed


lemma trim_idem: "trim (trim s) = trim s"
proof (cases "dropWhile isSpace s = []")
  case True
  then show ?thesis by (simp add: trim_def del: dropWhile_eq_Nil_conv)
next
  case False
  let ?a = "dropWhile isSpace s"
  let ?b = "dropWhile isSpace (rev ?a)"
  from False have ha: "\<not> isSpace (hd ?a)" by (rule hd_dropWhile)
  from False have "last (rev ?a) = hd ?a" by (simp add: last_rev)
  with False ha have "\<exists>x \<in> set (rev ?a). \<not> isSpace x"
    by (metis last_in_set rev_is_Nil_conv)
  then have bne: "?b \<noteq> []" by (simp only: dropWhile_eq_Nil_conv) blast
  then have hb: "\<not> isSpace (hd ?b)" by (rule hd_dropWhile)
  have "rev ?a = takeWhile isSpace (rev ?a) @ ?b" by simp
  with bne have "last (rev ?a) = last ?b" by (metis last_appendR)
  with False ha have lb: "\<not> isSpace (last ?b)" by (simp add: last_rev)
  have t: "trim s = rev ?b" by (simp add: trim_def)
  from bne hb lb have "trim (rev ?b @ []) = rev ?b"
    by (intro trim_append_spaces) (simp_all add: hd_rev last_rev)
  with t show ?thesis by simp
qed

text \<open>A second device locked to iCloud.\<close>

definition sampleLockedB :: Device where
  "sampleLockedB = \<lparr> id' = ''356789012345679-3'', imei = ''356789012345679'', imei2 = Some [],
     modelDesc = ''iPhone 13'', serial = Some [], warrantyStatus = Some [],
     icloudLock = Some ''ON'', carrier = Some ''AT&T'', simLock = Some ''Locked'',
     estPurchaseDate = Some [], activationStatus = Some [],
     rawText = [], group' = ATT, isActive = False \<rparr>"

text \<open>
  Claim C4, as stated, fails: the blocks of consecutive devices of one bucket are
  joined by a single newline, so no blank line stands between the separator of a
  device and the model line of the next one.
\<close>

theorem export_blank_line_counterexample:
  "generateExportText [sampleLocked, sampleLockedB]
     = ''*ICLOUD*\<newline>\<newline>iPhone 12\<newline>356789012345678\<newline>===============================\<newline>iPhone 13\<newline>356789012345679\<newline>===============================''
   \<and> generateExportText [sampleLocked, sampleLockedB]
       \<noteq> exportLayout ''\<newline>\<newline>'' [sampleLocked, sampleLockedB]"
proof
  show "generateExportText [sampleLocked, sampleLockedB]
     = ''*ICLOUD*\<newline>\<newline>iPhone 12\<newline>356789012345678\<newline>===============================\<newline>iPhone 13\<newline>356789012345679\<newline>==============================='' "
    by code_simp
  show "generateExportText [sampleLocked, sampleLockedB]
       \<noteq> exportLayout ''\<newline>\<newline>'' [sampleLocked, sampleLockedB]"
    by code_simp
qed

text \<open>
  Claim C4, amended. For every device list, the export text renders each non-empty
  bucket as its header text followed by a blank line and then, for each device of the
  bucket in input order, three lines: the model description with the occurrences of
  \<open>-USA\<close> removed and trimmed, the bare IMEI, and a line of 31 \<open>=\<close> characters.
  The blocks of consecutive devices follow each other directly, separated by a single
  newline with no blank line between them, and a blank line stands between bucket
  sections. Empty buckets contribute nothing, and the output has no leading or trailing
  whitespace.
\<close>

theorem export_text_layout:
  "generateExportText devices = exportLayout ''\<newline>'' devices
   \<and> trim (generateExportText devices) = generateExportText devices
   \<and> length separator = 31 \<and> set separator = {CHR ''=''}"
proof (intro conjI)
  show "generateExportText devices = exportLayout ''\<newline>'' devices"
    by (rule generateExportText_layout)
  show "trim (generateExportText devices) = generateExportText devices"
    by (simp only: generateExportText_sections trim_idem)
  show "length separator = 31" by (simp add: separator_def)
  show "set separator = {CHR ''=''}" by (simp add: separator_def)
qed

theorem export_text_layout_witness:
  "generateExportText [sampleLocked, sampleTmobile]
     = ''*ICLOUD*\<newline>\<newline>iPhone 12\<newline>356789012345678\<newline>===============================\<newline>\<newline>locked and non active tmoblie with network phone are like this with the device detetils,\<newline>\<newline>*LOCKED N NON ACTIVE T-MOBILE*\<newline>\<newline>iPhone 14\<newline>356789012345670\<newline>===============================''"
proof -
  have "exportLayout ''\<newline>'' [sampleLocked, sampleTmobile]
     = ''*ICLOUD*\<newline>\<newline>iPhone 12\<newline>356789012345678\<newline>===============================\<newline>\<newline>locked and non active tmoblie with network phone are like this with the device detetils,\<newline>\<newline>*LOCKED N NON ACTIVE T-MOBILE*\<newline>\<newline>iPhone 14\<newline>356789012345670\<newline>===============================''"
    by code_simp
  with export_text_layout [of "[sampleLocked, sampleTmobile]"] show ?thesis by simp
qed

end
